theory Spec2Isabelle
  imports Complex_Main "HOL-Library.Log_Nat" "HOL-Library.Sublist"
begin

section \<open>Go runtime values: integers, durations, binary64 floats\<close>

text \<open>
  Go's \<open>int\<close> and \<open>int64\<close> are modelled as \<open>int\<close>; where the source adds
  (\<open>avg\<close>) the two's-complement wrap-around is written out with \<open>wrap64\<close>.
  Integer division truncates toward zero (\<open>quo\<close>) and panics on a zero divisor.
\<close>

datatype panic = IndexOutOfRange | DivideByZero | MakeSliceCapOutOfRange

definition wrap64 :: "int \<Rightarrow> int" where
  "wrap64 x = (x + 2 ^ 63) mod 2 ^ 64 - 2 ^ 63"

definition quo :: "int \<Rightarrow> int \<Rightarrow> panic + int" where
  "quo a b = (if b = 0 then Inl DivideByZero else Inr (wrap64 (sgn a * sgn b * (\<bar>a\<bar> div \<bar>b\<bar>))))"

text \<open>
  \<open>time.Since\<close> yields a \<open>Duration\<close>: the elapsed nanoseconds (supplied by the
  environment) saturated at the bounds of \<open>int64\<close>. \<open>Duration.Milliseconds\<close> divides
  by \<open>10^6\<close>, truncating toward zero.
\<close>

definition maxDuration :: int where
  "maxDuration = 2 ^ 63 - 1"

definition minDuration :: int where
  "minDuration = - (2 ^ 63)"

definition time_Since :: "int \<Rightarrow> int" where
  "time_Since ns = max minDuration (min ns maxDuration)"

definition Milliseconds :: "int \<Rightarrow> int" where
  "Milliseconds d = sgn d * (\<bar>d\<bar> div 1000000)"

text \<open>
  A \<open>float64\<close> value is the rational it denotes. \<open>float64 x\<close> rounds a rational to the
  nearest binary64 number (53-bit significand, ties to even). Exponent range limits
  (subnormals, overflow to infinity) are not modelled: every float the program computes
  is zero or has magnitude between \<open>10^-9\<close> and \<open>2^127\<close>.
  Each arithmetic operation of the source is rounded separately.
\<close>

definition ilog2 :: "rat \<Rightarrow> int" where
  "ilog2 x = (if 1 \<le> x then bitlen \<lfloor>x\<rfloor> - 1 else - bitlen (\<lceil>1 / x\<rceil> - 1))"

definition round_half_even :: "rat \<Rightarrow> int" where
  "round_half_even q =
     (let f = \<lfloor>q\<rfloor>; r = q - of_int f
      in if r < 1 / 2 then f else if 1 / 2 < r then f + 1 else if even f then f else f + 1)"

definition float64 :: "rat \<Rightarrow> rat" where
  "float64 x =
     (if x = 0 then 0
      else let u = 2 powi (ilog2 \<bar>x\<bar> - 52) in u * of_int (round_half_even (x / u)))"

definition fdiv :: "rat \<Rightarrow> rat \<Rightarrow> rat" where
  "fdiv a b = float64 (a / b)"

definition fmul :: "rat \<Rightarrow> rat \<Rightarrow> rat" where
  "fmul a b = float64 (a * b)"

definition fadd :: "rat \<Rightarrow> rat \<Rightarrow> rat" where
  "fadd a b = float64 (a + b)"

definition float64_of_int :: "int \<Rightarrow> rat" where
  "float64_of_int n = float64 (of_int n)"

text \<open>
  Conversion of a float to an integer truncates toward zero; outside the \<open>int64\<close> range
  the result is the amd64 "integer indefinite" value \<open>-2^63\<close>.
\<close>

definition int_of_float64 :: "rat \<Rightarrow> int" where
  "int_of_float64 x =
     (let t = (if 0 \<le> x then \<lfloor>x\<rfloor> else \<lceil>x\<rceil>)
      in if - (2 ^ 63) \<le> t \<and> t < 2 ^ 63 then t else - (2 ^ 63))"

definition Seconds :: "int \<Rightarrow> rat" where
  "Seconds d =
     fadd (float64_of_int (sgn d * (\<bar>d\<bar> div 1000000000)))
          (fdiv (float64_of_int (sgn d * (\<bar>d\<bar> mod 1000000000))) 1000000000)"

section \<open>Package strings\<close>

fun IndexByte :: "string \<Rightarrow> char \<Rightarrow> int" where
  "IndexByte [] c = - 1"
| "IndexByte (x # xs) c =
     (if x = c then 0 else (let i = IndexByte xs c in if i < 0 then - 1 else i + 1))"

definition LastIndexByte :: "string \<Rightarrow> char \<Rightarrow> int" where
  "LastIndexByte s c =
     (let i = IndexByte (rev s) c in if i < 0 then - 1 else int (length s) - 1 - i)"

fun Index :: "string \<Rightarrow> string \<Rightarrow> int" where
  "Index [] sub = (if sub = [] then 0 else - 1)"
| "Index (x # xs) sub =
     (if prefix sub (x # xs) then 0
      else (let i = Index xs sub in if i < 0 then - 1 else i + 1))"

definition Contains :: "string \<Rightarrow> string \<Rightarrow> bool" where
  "Contains s sub = (0 \<le> Index s sub)"

definition HasPrefix :: "string \<Rightarrow> string \<Rightarrow> bool" where
  "HasPrefix s p = prefix p s"

definition HasSuffix :: "string \<Rightarrow> string \<Rightarrow> bool" where
  "HasSuffix s p = suffix p s"

definition TrimPrefix :: "string \<Rightarrow> string \<Rightarrow> string" where
  "TrimPrefix s p = (if HasPrefix s p then drop (length p) s else s)"

definition Cut :: "string \<Rightarrow> string \<Rightarrow> string \<times> string \<times> bool" where
  "Cut s sep =
     (let i = Index s sep
      in if 0 \<le> i then (take (nat i) s, drop (nat i + length sep) s, True) else (s, [], False))"

definition CountByte :: "string \<Rightarrow> char \<Rightarrow> nat" where
  "CountByte s c = length (filter (\<lambda>x. x = c) s)"

text \<open>\<open>strings.SplitN(s, sep, 2)\<close> for a one-byte separator.\<close>

definition SplitN2 :: "string \<Rightarrow> char \<Rightarrow> string list" where
  "SplitN2 s c =
     (let i = IndexByte s c
      in if i < 0 then [s] else [take (nat i) s, drop (nat i + 1) s])"

definition byte :: "char \<Rightarrow> int" where
  "byte c = of_char c"

definition isLower :: "char \<Rightarrow> bool" where
  "isLower c = (97 \<le> byte c \<and> byte c \<le> 122)"

definition isUpper :: "char \<Rightarrow> bool" where
  "isUpper c = (65 \<le> byte c \<and> byte c \<le> 90)"

definition isDigit :: "char \<Rightarrow> bool" where
  "isDigit c = (48 \<le> byte c \<and> byte c \<le> 57)"

definition isAlnum :: "char \<Rightarrow> bool" where
  "isAlnum c = (isLower c \<or> isUpper c \<or> isDigit c)"

definition ToLower :: "string \<Rightarrow> string" where
  "ToLower s = map (\<lambda>c. if isUpper c then char_of (byte c + 32) else c) s"

section \<open>Package encoding/base64\<close>

record encoding =
  alphabet :: string
  padChar :: "char option"

definition encodeStd :: string where
  "encodeStd = ''ABCDEFGHIJKLMNOPQRSTUVWXYZabcdefghijklmnopqrstuvwxyz0123456789+/''"

definition encodeURL :: string where
  "encodeURL = ''ABCDEFGHIJKLMNOPQRSTUVWXYZabcdefghijklmnopqrstuvwxyz0123456789-_''"

definition StdEncoding :: encoding where
  "StdEncoding = \<lparr>alphabet = encodeStd, padChar = Some (CHR ''='')\<rparr>"

definition URLEncoding :: encoding where
  "URLEncoding = \<lparr>alphabet = encodeURL, padChar = Some (CHR ''='')\<rparr>"

definition RawStdEncoding :: encoding where
  "RawStdEncoding = \<lparr>alphabet = encodeStd, padChar = None\<rparr>"

definition RawURLEncoding :: encoding where
  "RawURLEncoding = \<lparr>alphabet = encodeURL, padChar = None\<rparr>"

fun decodeMap :: "string \<Rightarrow> char \<Rightarrow> int option" where
  "decodeMap [] c = None"
| "decodeMap (a # as) c =
     (if a = c then Some 0 else map_option (\<lambda>i. i + 1) (decodeMap as c))"

definition isNewline :: "char \<Rightarrow> bool" where
  "isNewline c = (c = CHR 0x0A \<or> c = CHR 0x0D)"

text \<open>
  The bytes of one quantum: the collected 6-bit values (two, three or four of them)
  are packed into 24 bits and the leading \<open>dlen - 1\<close> bytes are written.
\<close>

definition quantum_bytes :: "int list \<Rightarrow> string" where
  "quantum_bytes dbuf =
     (let d = dbuf @ replicate (4 - length dbuf) 0;
          val = (d ! 0) * 262144 + (d ! 1) * 4096 + (d ! 2) * 64 + (d ! 3)
      in take (length dbuf - 1)
           [char_of (val div 65536), char_of (val div 256), char_of val])"

text \<open>
  After a padding character was read with \<open>j\<close> values collected: \<open>j = 2\<close> expects a
  second padding character (newlines may intervene); afterwards only newlines may follow.
\<close>

definition decode_padding :: "encoding \<Rightarrow> int list \<Rightarrow> string \<Rightarrow> string option" where
  "decode_padding enc dbuf rest =
     (if length dbuf < 2 then None
      else
        (let after =
           (if length dbuf = 2
            then (case dropWhile isNewline rest of
                    [] \<Rightarrow> None
                  | c # cs \<Rightarrow> if Some c = padChar enc then Some cs else None)
            else Some rest)
         in case after of
              None \<Rightarrow> None
            | Some cs \<Rightarrow>
                if dropWhile isNewline cs = [] then Some (quantum_bytes dbuf) else None))"

text \<open>
  \<open>Encoding.DecodeString\<close> (non-strict): \<open>None\<close> stands for a \<open>CorruptInputError\<close>.
  \<open>dbuf\<close> holds the values of the quantum being read.
\<close>

fun decode_from :: "encoding \<Rightarrow> int list \<Rightarrow> string \<Rightarrow> string option" where
  "decode_from enc dbuf [] =
     (if dbuf = [] then Some []
      else if length dbuf = 1 \<or> padChar enc \<noteq> None then None
      else Some (quantum_bytes dbuf))"
| "decode_from enc dbuf (c # cs) =
     (case decodeMap (alphabet enc) c of
        Some v \<Rightarrow>
          if length dbuf = 3
          then map_option (\<lambda>t. quantum_bytes (dbuf @ [v]) @ t) (decode_from enc [] cs)
          else decode_from enc (dbuf @ [v]) cs
      | None \<Rightarrow>
          if isNewline c then decode_from enc dbuf cs
          else if Some c \<noteq> padChar enc then None
          else decode_padding enc dbuf cs)"

definition DecodeString :: "encoding \<Rightarrow> string \<Rightarrow> string option" where
  "DecodeString enc s = decode_from enc [] s"

section \<open>Packages net/url and net\<close>

datatype url_error =
    InvalidControlCharacter
  | MissingProtocolScheme
  | FirstPathSegmentColon
  | InvalidUserinfo
  | InvalidPort
  | MissingBracket
  | EscapeError
  | InvalidHostError

datatype addr_error =
    MissingPort
  | TooManyColons
  | MissingClosingBracket
  | UnexpectedOpenBracket
  | UnexpectedCloseBracket

text \<open>
  An error value: a library error, an \<open>errors.New\<close> / verb-free \<open>fmt.Errorf\<close> text, an
  error text reported by the network stack, or \<open>fmt.Errorf("prefix: %w", err)\<close>.
\<close>

datatype error =
    UrlError url_error
  | CorruptInputError
  | AddrError addr_error
  | NetError string
  | New string
  | Wrap string error

record Userinfo =
  username :: string
  password :: string
  passwordSet :: bool

record URL =
  Scheme :: string
  Opaque :: string
  User :: "Userinfo option"
  Host :: string
  Path :: string
  RawQuery :: string
  Fragment :: string

definition empty_URL :: URL where
  "empty_URL = \<lparr>Scheme = [], Opaque = [], User = None, Host = [], Path = [],
                 RawQuery = [], Fragment = []\<rparr>"

datatype encoding_mode =
  encodePath | encodeUserPassword | encodeHost | encodeZone | encodeFragment

definition ishex :: "char \<Rightarrow> bool" where
  "ishex c = (isDigit c \<or> (97 \<le> byte c \<and> byte c \<le> 102) \<or> (65 \<le> byte c \<and> byte c \<le> 70))"

definition unhex :: "char \<Rightarrow> int" where
  "unhex c =
     (if isDigit c then byte c - 48
      else if 97 \<le> byte c \<and> byte c \<le> 102 then byte c - 97 + 10
      else if 65 \<le> byte c \<and> byte c \<le> 70 then byte c - 65 + 10
      else 0)"

text \<open>\<open>shouldEscape(c, encodeHost)\<close>.\<close>

definition shouldEscape_host :: "char \<Rightarrow> bool" where
  "shouldEscape_host c =
     (\<not> (isAlnum c \<or> c \<in> set ''!$&()*+,;=:[]<>-_.~'' \<or> c = CHR 0x27 \<or> c = CHR 0x22))"

definition host_mode :: "encoding_mode \<Rightarrow> bool" where
  "host_mode m = (m = encodeHost \<or> m = encodeZone)"

fun unescape_check :: "encoding_mode \<Rightarrow> string \<Rightarrow> url_error option" where
  "unescape_check mode [] = None"
| "unescape_check mode (c # cs) =
     (if c = CHR ''%''
      then (case cs of
              a # b # rest \<Rightarrow>
                if \<not> ishex a \<or> \<not> ishex b then Some EscapeError
                else if mode = encodeHost \<and> unhex a < 8 \<and> [a, b] \<noteq> ''25''
                  then Some EscapeError
                else if mode = encodeZone \<and> [a, b] \<noteq> ''25''
                        \<and> char_of (unhex a * 16 + unhex b) \<noteq> CHR '' ''
                        \<and> shouldEscape_host (char_of (unhex a * 16 + unhex b))
                  then Some EscapeError
                else unescape_check mode rest
            | _ \<Rightarrow> Some EscapeError)
      else if c \<noteq> CHR ''+'' \<and> host_mode mode \<and> byte c < 128 \<and> shouldEscape_host c
        then Some InvalidHostError
      else unescape_check mode cs)"

fun unescape_build :: "string \<Rightarrow> string" where
  "unescape_build [] = []"
| "unescape_build (c # cs) =
     (if c = CHR ''%''
      then (case cs of
              a # b # rest \<Rightarrow> char_of (unhex a * 16 + unhex b) # unescape_build rest
            | _ \<Rightarrow> c # unescape_build cs)
      else c # unescape_build cs)"

definition unescape :: "string \<Rightarrow> encoding_mode \<Rightarrow> url_error + string" where
  "unescape s mode =
     (case unescape_check mode s of
        Some e \<Rightarrow> Inl e
      | None \<Rightarrow> Inr (unescape_build s))"

definition stringContainsCTLByte :: "string \<Rightarrow> bool" where
  "stringContainsCTLByte s = list_ex (\<lambda>c. byte c < 32 \<or> byte c = 127) s"

fun getScheme_loop :: "nat \<Rightarrow> string \<Rightarrow> string \<Rightarrow> url_error + (string \<times> string)" where
  "getScheme_loop i [] rawURL = Inr ([], rawURL)"
| "getScheme_loop i (c # cs) rawURL =
     (if isLower c \<or> isUpper c then getScheme_loop (Suc i) cs rawURL
      else if isDigit c \<or> c = CHR ''+'' \<or> c = CHR ''-'' \<or> c = CHR ''.''
        then (if i = 0 then Inr ([], rawURL) else getScheme_loop (Suc i) cs rawURL)
      else if c = CHR '':''
        then (if i = 0 then Inl MissingProtocolScheme
              else Inr (take i rawURL, drop (Suc i) rawURL))
      else Inr ([], rawURL))"

definition getScheme :: "string \<Rightarrow> url_error + (string \<times> string)" where
  "getScheme rawURL = getScheme_loop 0 rawURL rawURL"

definition validOptionalPort :: "string \<Rightarrow> bool" where
  "validOptionalPort port =
     (case port of
        [] \<Rightarrow> True
      | c # cs \<Rightarrow> c = CHR '':'' \<and> list_all isDigit cs)"

definition validUserinfo :: "string \<Rightarrow> bool" where
  "validUserinfo s =
     list_all (\<lambda>r. isAlnum r \<or> r \<in> set ''-._:~!$&()*+,;=%@'' \<or> r = CHR 0x27) s"

definition parseHost :: "string \<Rightarrow> url_error + string" where
  "parseHost host =
     (if HasPrefix host ''[''
      then
        (let i = LastIndexByte host (CHR '']'')
         in if i < 0 then Inl MissingBracket
            else if \<not> validOptionalPort (drop (nat i + 1) host) then Inl InvalidPort
            else
              (let zone = Index (take (nat i) host) ''%25''
               in if 0 \<le> zone
                  then (case unescape (take (nat zone) host) encodeHost of
                          Inl e \<Rightarrow> Inl e
                        | Inr host1 \<Rightarrow>
                            (case unescape (drop (nat zone) (take (nat i) host)) encodeZone of
                               Inl e \<Rightarrow> Inl e
                             | Inr host2 \<Rightarrow>
                                 (case unescape (drop (nat i) host) encodeHost of
                                    Inl e \<Rightarrow> Inl e
                                  | Inr host3 \<Rightarrow> Inr (host1 @ host2 @ host3))))
                  else unescape host encodeHost))
      else
        (let i = LastIndexByte host (CHR '':'')
         in if i \<noteq> - 1 \<and> \<not> validOptionalPort (drop (nat i) host) then Inl InvalidPort
            else unescape host encodeHost))"

definition parseAuthority :: "string \<Rightarrow> url_error + (Userinfo option \<times> string)" where
  "parseAuthority authority =
     (let i = LastIndexByte authority (CHR ''@'')
      in case (if i < 0 then parseHost authority else parseHost (drop (nat i + 1) authority)) of
           Inl e \<Rightarrow> Inl e
         | Inr host \<Rightarrow>
             if i < 0 then Inr (None, host)
             else
               (let userinfo = take (nat i) authority
                in if \<not> validUserinfo userinfo then Inl InvalidUserinfo
                   else if \<not> Contains userinfo '':''
                     then (case unescape userinfo encodeUserPassword of
                             Inl e \<Rightarrow> Inl e
                           | Inr u \<Rightarrow>
                               Inr (Some \<lparr>username = u, password = [], passwordSet = False\<rparr>,
                                    host))
                   else
                     (case Cut userinfo '':'' of
                        (un, pw, _) \<Rightarrow>
                          (case unescape un encodeUserPassword of
                             Inl e \<Rightarrow> Inl e
                           | Inr u \<Rightarrow>
                               (case unescape pw encodeUserPassword of
                                  Inl e \<Rightarrow> Inl e
                                | Inr p \<Rightarrow>
                                    Inr (Some \<lparr>username = u, password = p,
                                               passwordSet = True\<rparr>, host))))))"

text \<open>\<open>parse(rawURL, viaRequest = false)\<close>.\<close>

definition parse :: "string \<Rightarrow> url_error + URL" where
  "parse rawURL =
     (if stringContainsCTLByte rawURL then Inl InvalidControlCharacter
      else if rawURL = ''*'' then Inr (empty_URL\<lparr>Path := ''*''\<rparr>)
      else
        (case getScheme rawURL of
           Inl e \<Rightarrow> Inl e
         | Inr (scheme0, rest0) \<Rightarrow>
             (let scheme = ToLower scheme0;
                  (rest1, query) =
                    (if HasSuffix rest0 ''?'' \<and> CountByte rest0 (CHR ''?'') = 1
                     then (butlast rest0, [])
                     else (case Cut rest0 ''?'' of (r, q, _) \<Rightarrow> (r, q)));
                  url = empty_URL\<lparr>Scheme := scheme, RawQuery := query\<rparr>
              in if \<not> HasPrefix rest1 ''/'' \<and> scheme \<noteq> []
                   then Inr (url\<lparr>Opaque := rest1\<rparr>)
                 else if \<not> HasPrefix rest1 ''/''
                         \<and> Contains (fst (Cut rest1 ''/'')) '':''
                   then Inl FirstPathSegmentColon
                 else if (scheme \<noteq> [] \<or> \<not> HasPrefix rest1 ''///'') \<and> HasPrefix rest1 ''//''
                   then
                     (let authority0 = drop 2 rest1;
                          i = Index authority0 ''/'';
                          authority = (if 0 \<le> i then take (nat i) authority0 else authority0);
                          rest2 = (if 0 \<le> i then drop (nat i) authority0 else [])
                      in case parseAuthority authority of
                           Inl e \<Rightarrow> Inl e
                         | Inr (user, host) \<Rightarrow>
                             (case unescape rest2 encodePath of
                                Inl e \<Rightarrow> Inl e
                              | Inr path \<Rightarrow>
                                  Inr (url\<lparr>User := user, Host := host, Path := path\<rparr>)))
                 else
                   (case unescape rest1 encodePath of
                      Inl e \<Rightarrow> Inl e
                    | Inr path \<Rightarrow> Inr (url\<lparr>Path := path\<rparr>)))))"

text \<open>\<open>url.Parse\<close>: the fragment is cut off first and unescaped last.\<close>

definition url_Parse :: "string \<Rightarrow> error + URL" where
  "url_Parse rawURL =
     (case Cut rawURL ''#'' of
        (u, frag, _) \<Rightarrow>
          (case parse u of
             Inl e \<Rightarrow> Inl (UrlError e)
           | Inr url \<Rightarrow>
               if frag = [] then Inr url
               else (case unescape frag encodeFragment of
                       Inl e \<Rightarrow> Inl (UrlError e)
                     | Inr f \<Rightarrow> Inr (url\<lparr>Fragment := f\<rparr>))))"

definition SplitHostPort :: "string \<Rightarrow> error + (string \<times> string)" where
  "SplitHostPort hostport =
     (let i = LastIndexByte hostport (CHR '':'')
      in if i < 0 then Inl (AddrError MissingPort)
         else
           (let bracket = (hd hostport = CHR ''['');
                end = IndexByte hostport (CHR '']'')
            in if bracket \<and> end < 0 then Inl (AddrError MissingClosingBracket)
               else if bracket \<and> end + 1 = int (length hostport) then Inl (AddrError MissingPort)
               else if bracket \<and> end + 1 \<noteq> i
                 then (if hostport ! nat (end + 1) = CHR '':''
                       then Inl (AddrError TooManyColons) else Inl (AddrError MissingPort))
               else if \<not> bracket \<and> 0 \<le> IndexByte (take (nat i) hostport) (CHR '':'')
                 then Inl (AddrError TooManyColons)
               else
                 (let host = (if bracket then drop 1 (take (nat end) hostport)
                              else take (nat i) hostport);
                      j = (if bracket then 1 else 0);
                      k = (if bracket then nat end + 1 else 0)
                  in if 0 \<le> IndexByte (drop j hostport) (CHR ''['')
                       then Inl (AddrError UnexpectedOpenBracket)
                     else if 0 \<le> IndexByte (drop k hostport) (CHR '']'')
                       then Inl (AddrError UnexpectedCloseBracket)
                     else Inr (host, drop (nat i + 1) hostport))))"

definition JoinHostPort :: "string \<Rightarrow> string \<Rightarrow> string" where
  "JoinHostPort host port =
     (if 0 \<le> IndexByte host (CHR '':'') \<or> 0 \<le> IndexByte host (CHR ''%'')
      then ''['' @ host @ '']:'' @ port
      else host @ '':'' @ port)"

text \<open>
  \<open>proxy.FromURL\<close> (golang.org/x/net/proxy) with no registered dialer types: it builds a
  SOCKS5 dialer for the schemes socks5 and socks5h and fails for every other scheme.
\<close>

definition proxy_FromURL :: "URL \<Rightarrow> error + unit" where
  "proxy_FromURL u =
     (if Scheme u = ''socks5'' \<or> Scheme u = ''socks5h'' then Inr ()
      else Inl (New (''proxy: unknown scheme: '' @ Scheme u)))"


section \<open>The environment\<close>

text \<open>
  Everything the program observes but does not compute: what the network answers and
  how long it takes (in nanoseconds), and the text the Go libraries render for their
  own error values. A client is identified by the proxy address it routes through.
\<close>

datatype client = HTTPProxyClient string | SOCKS5Client string

datatype net_call = Dial string | Get client string

record body =
  bytes_read :: int
  read_ns :: int
  read_error :: "string option"

record env =
  errtext :: "error \<Rightarrow> string"
  dial :: "string \<Rightarrow> int \<Rightarrow> string + int"
  hold :: "string \<Rightarrow> int"
  get :: "client \<Rightarrow> string \<Rightarrow> nat \<Rightarrow> string + int"
  download :: "client \<Rightarrow> string \<Rightarrow> string + body"

fun Error_text :: "(error \<Rightarrow> string) \<Rightarrow> error \<Rightarrow> string" where
  "Error_text d (New s) = s"
| "Error_text d (NetError s) = s"
| "Error_text d (Wrap p e) = p @ Error_text d e"
| "Error_text d e = d e"

section \<open>Package checker\<close>

type_synonym Protocol = string

definition ProtocolHTTP :: Protocol where "ProtocolHTTP = ''http''"
definition ProtocolHTTPS :: Protocol where "ProtocolHTTPS = ''https''"
definition ProtocolSOCKS5 :: Protocol where "ProtocolSOCKS5 = ''socks5''"
definition ProtocolShadowsocks :: Protocol where "ProtocolShadowsocks = ''ss''"
definition ProtocolUnknown :: Protocol where "ProtocolUnknown = ''unknown''"

record Addressed =
  Address :: string

record Result = Addressed +
  Protocol :: Protocol
  Alive :: bool
  Latency :: int
  Error :: string

record Options =
  Timeout :: int
  TestURL :: string
  Concurrency :: int

definition new_Result :: "string \<Rightarrow> Protocol \<Rightarrow> Result" where
  "new_Result address proto =
     \<lparr>Address = address, Protocol = proto, Alive = False, Latency = 0, Error = []\<rparr>"

definition zero_Result :: Result where
  "zero_Result = new_Result [] []"

definition DetectProtocol :: "string \<Rightarrow> Protocol" where
  "DetectProtocol address =
     (if 7 \<le> length address \<and> take 7 address = ''http://'' then ProtocolHTTP
      else if 8 \<le> length address \<and> take 8 address = ''https://'' then ProtocolHTTPS
      else if 9 \<le> length address \<and> take 9 address = ''socks5://'' then ProtocolSOCKS5
      else if 5 \<le> length address \<and> take 5 address = ''ss://'' then ProtocolShadowsocks
      else ProtocolUnknown)"

definition defaultTestURL :: "string \<Rightarrow> string" where
  "defaultTestURL testURL = (if testURL = [] then ''http://www.google.com'' else testURL)"

definition tcpProbe :: "env \<Rightarrow> string \<Rightarrow> int \<Rightarrow> error + int" where
  "tcpProbe e host timeout =
     (case dial e host timeout of
        Inl err \<Rightarrow> Inl (Wrap ''tcp dial: '' (NetError err))
      | Inr ns \<Rightarrow> Inr (time_Since ns))"

definition CheckHTTP :: "env \<Rightarrow> string \<Rightarrow> 'a Options_scheme \<Rightarrow> Result \<times> net_call list" where
  "CheckHTTP e address opts =
     (let result = new_Result address
            (if DetectProtocol address = ProtocolHTTPS then ProtocolHTTPS else ProtocolHTTP)
      in case url_Parse address of
           Inl err \<Rightarrow>
             (result\<lparr>Error := ''invalid proxy URL: '' @ Error_text (errtext e) err\<rparr>, [])
         | Inr proxyURL \<Rightarrow>
             (let c = HTTPProxyClient address;
                  testURL = defaultTestURL (TestURL opts)
              in case get e c testURL 0 of
                   Inl err \<Rightarrow> (result\<lparr>Error := err\<rparr>, [Get c testURL])
                 | Inr ns \<Rightarrow>
                     (result\<lparr>Alive := True, Latency := time_Since ns\<rparr>, [Get c testURL])))"

definition CheckSOCKS5 :: "env \<Rightarrow> string \<Rightarrow> 'a Options_scheme \<Rightarrow> Result \<times> net_call list" where
  "CheckSOCKS5 e address opts =
     (let result = new_Result address ProtocolSOCKS5
      in case url_Parse address of
           Inl err \<Rightarrow>
             (result\<lparr>Error := ''invalid socks5 URL: '' @ Error_text (errtext e) err\<rparr>, [])
         | Inr proxyURL \<Rightarrow>
             (let host = (case SplitHostPort (Host proxyURL) of
                            Inl _ \<Rightarrow> Host proxyURL @ '':1080''
                          | Inr _ \<Rightarrow> Host proxyURL)
              in case tcpProbe e host (Timeout opts) of
                   Inl err \<Rightarrow>
                     (result\<lparr>Error := ''tcp probe: '' @ Error_text (errtext e) err\<rparr>,
                      [Dial host])
                 | Inr tcpLatency \<Rightarrow>
                     (case proxy_FromURL proxyURL of
                        Inl err \<Rightarrow>
                          (result\<lparr>Error := ''socks5 dialer: '' @ Error_text (errtext e) err\<rparr>,
                           [Dial host])
                      | Inr _ \<Rightarrow>
                          (let c = SOCKS5Client address;
                               testURL = defaultTestURL (TestURL opts)
                           in case get e c testURL 0 of
                                Inl err \<Rightarrow>
                                  (result\<lparr>Alive := False, Latency := tcpLatency,
                                          Error := ''forward check: '' @ err\<rparr>,
                                   [Dial host, Get c testURL])
                              | Inr ns \<Rightarrow>
                                  (result\<lparr>Alive := True, Latency := time_Since ns\<rparr>,
                                   [Dial host, Get c testURL])))))"

record ShadowsocksConfig =
  cfg_Host :: string
  cfg_Port :: string
  Method :: string
  Password :: string

definition ParseShadowsocksURL :: "string \<Rightarrow> error + ShadowsocksConfig" where
  "ParseShadowsocksURL rawURL =
     (case url_Parse rawURL of
        Inl err \<Rightarrow> Inl (Wrap ''parse url: '' err)
      | Inr u \<Rightarrow>
          (case User u of
             Some ui \<Rightarrow>
               (let userInfo = username ui
                in case (case DecodeString RawURLEncoding userInfo of
                           Some d \<Rightarrow> Some d
                         | None \<Rightarrow> DecodeString StdEncoding userInfo) of
                     None \<Rightarrow> Inl (Wrap ''base64 decode userinfo: '' CorruptInputError)
                   | Some decoded \<Rightarrow>
                       (case SplitN2 decoded (CHR '':'') of
                          [m, p] \<Rightarrow>
                            (case SplitHostPort (Host u) of
                               Inl err \<Rightarrow> Inl (Wrap ''host:port: '' err)
                             | Inr (h, pt) \<Rightarrow>
                                 Inr \<lparr>cfg_Host = h, cfg_Port = pt, Method = m, Password = p\<rparr>)
                        | _ \<Rightarrow> Inl (New ''invalid method:password in userinfo'')))
           | None \<Rightarrow>
               (let fragment0 = TrimPrefix rawURL ''ss://'';
                    idx = IndexByte fragment0 (CHR ''#'');
                    fragment = (if idx \<noteq> - 1 then take (nat idx) fragment0 else fragment0)
                in case (case DecodeString StdEncoding fragment of
                           Some d \<Rightarrow> Some d
                         | None \<Rightarrow> DecodeString RawStdEncoding fragment) of
                     None \<Rightarrow> Inl (Wrap ''base64 decode legacy: '' CorruptInputError)
                   | Some decoded \<Rightarrow>
                       (let atIdx = LastIndexByte decoded (CHR ''@'')
                        in if atIdx = - 1 then Inl (New ''missing @ in legacy ss URI'')
                           else
                             (let methodPass = take (nat atIdx) decoded;
                                  hostPort = drop (nat atIdx + 1) decoded
                              in case SplitN2 methodPass (CHR '':'') of
                                   [m, p] \<Rightarrow>
                                     (case SplitHostPort hostPort of
                                        Inl err \<Rightarrow> Inl (Wrap ''host:port legacy: '' err)
                                      | Inr (h, pt) \<Rightarrow>
                                          Inr \<lparr>cfg_Host = h, cfg_Port = pt,
                                               Method = m, Password = p\<rparr>)
                                 | _ \<Rightarrow> Inl (New ''invalid method:password''))))))"

definition CheckShadowsocks :: "env \<Rightarrow> string \<Rightarrow> 'a Options_scheme \<Rightarrow> Result \<times> net_call list" where
  "CheckShadowsocks e address opts =
     (let result = new_Result address ProtocolShadowsocks
      in case ParseShadowsocksURL address of
           Inl err \<Rightarrow> (result\<lparr>Error := ''parse: '' @ Error_text (errtext e) err\<rparr>, [])
         | Inr cfg \<Rightarrow>
             (let hostPort = JoinHostPort (cfg_Host cfg) (cfg_Port cfg)
              in case dial e hostPort (Timeout opts) of
                   Inl err \<Rightarrow> (result\<lparr>Error := ''tcp: '' @ err\<rparr>, [Dial hostPort])
                 | Inr ns \<Rightarrow>
                     (result\<lparr>Alive := True, Latency := time_Since (ns + hold e hostPort)\<rparr>,
                      [Dial hostPort])))"

definition Check :: "env \<Rightarrow> string \<Rightarrow> 'a Options_scheme \<Rightarrow> Result \<times> net_call list" where
  "Check e address opts =
     (let proto = DetectProtocol address
      in if proto = ProtocolHTTP \<or> proto = ProtocolHTTPS then CheckHTTP e address opts
         else if proto = ProtocolSOCKS5 then CheckSOCKS5 e address opts
         else if proto = ProtocolShadowsocks then CheckShadowsocks e address opts
         else
           (case CheckSOCKS5 e (''socks5://'' @ address) opts of
              (result, calls) \<Rightarrow>
                if Alive result then (result, calls)
                else
                  (case CheckHTTP e (''http://'' @ address) opts of
                     (result2, calls2) \<Rightarrow>
                       if Alive result2 then (result2, calls @ calls2)
                       else
                         ((new_Result address ProtocolUnknown)
                             \<lparr>Error := ''protocol auto-detect failed''\<rparr>,
                          calls @ calls2))))"

section \<open>Package bench\<close>

record Stats = Addressed +
  Samples :: int
  Successful :: int
  MinMS :: int
  MaxMS :: int
  AvgMS :: int
  P50MS :: int
  P95MS :: int
  LossRate :: rat
  SpeedBps :: int

record bench_Options = Options +
  Samples_opt :: int
  PayloadURL :: string

definition new_Stats :: "string \<Rightarrow> int \<Rightarrow> Stats" where
  "new_Stats address samples =
     \<lparr>Address = address, Samples = samples, Successful = 0, MinMS = 0, MaxMS = 0,
      AvgMS = 0, P50MS = 0, P95MS = 0, LossRate = 0, SpeedBps = 0\<rparr>"


definition avg :: "int list \<Rightarrow> panic + int" where
  "avg vals = quo (foldl (\<lambda>sum v. wrap64 (sum + v)) 0 vals) (int (length vals))"

definition percentile :: "int list \<Rightarrow> int \<Rightarrow> panic + int" where
  "percentile xs p =
     (if length xs = 0 then Inr 0
      else
        (let idx0 = int_of_float64
                      (fadd (fmul (fdiv (float64_of_int p) 100)
                                  (float64_of_int (int (length xs) - 1)))
                            (1 / 2));
             idx = (if int (length xs) \<le> idx0 then int (length xs) - 1 else idx0)
         in if idx < 0 then Inl IndexOutOfRange else Inr (xs ! nat idx)))"

definition buildClient :: "string \<Rightarrow> error + client" where
  "buildClient address =
     (case url_Parse address of
        Inl err \<Rightarrow> Inl (Wrap ''parse proxy URL: '' err)
      | Inr u \<Rightarrow>
          if Scheme u = ''socks5''
          then (case proxy_FromURL u of
                  Inl err \<Rightarrow> Inl (Wrap ''socks5 dialer: '' err)
                | Inr _ \<Rightarrow> Inr (SOCKS5Client address))
          else Inr (HTTPProxyClient address))"

definition measureSpeed :: "env \<Rightarrow> client \<Rightarrow> string \<Rightarrow> int" where
  "measureSpeed e c payloadURL =
     (case download e c payloadURL of
        Inl err \<Rightarrow> 0
      | Inr b \<Rightarrow>
          (let elapsed = Seconds (time_Since (read_ns b))
           in if elapsed = 0 then 0
              else int_of_float64 (fdiv (float64_of_int (bytes_read b)) elapsed)))"

text \<open>
  \<open>make([]int64, 0, n)\<close> panics when \<open>8 n\<close> exceeds the runtime's \<open>maxAlloc\<close>, which is
  \<open>2^48\<close> on 64-bit Linux. Running out of physical memory is not modelled.
\<close>

definition maxAlloc :: int where
  "maxAlloc = 2 ^ 48"

text \<open>One iteration of the sampling loop of \<open>Run\<close>, on the pair (latencies, Successful).\<close>

definition sample :: "env \<Rightarrow> client \<Rightarrow> string \<Rightarrow> int list \<times> int \<Rightarrow> nat \<Rightarrow> int list \<times> int" where
  "sample e c testURL acc i =
     (case get e c testURL i of
        Inl err \<Rightarrow> acc
      | Inr ns \<Rightarrow> (fst acc @ [Milliseconds (time_Since ns)], snd acc + 1))"

definition Run :: "env \<Rightarrow> string \<Rightarrow> 'a bench_Options_scheme \<Rightarrow> panic + Stats \<times> net_call list" where
  "Run e address opts =
     (let stats = new_Stats address (Samples_opt opts);
          samples = (if Samples_opt opts \<le> 0 then 5 else Samples_opt opts)
      in case buildClient address of
           Inl err \<Rightarrow> Inr (stats, [])
         | Inr c \<Rightarrow>
             if maxAlloc < 8 * samples then Inl MakeSliceCapOutOfRange
             else
               (let testURL = defaultTestURL (TestURL opts);
                    (latencies0, successful) =
                       foldl (sample e c testURL) ([], 0) [0..<nat samples];
                    calls = replicate (nat samples) (Get c testURL);
                    stats1 = stats\<lparr>Successful := successful\<rparr>
                in if length latencies0 = 0 then Inr (stats1\<lparr>LossRate := 1\<rparr>, calls)
                   else
                     (let latencies = sort latencies0
                      in case avg latencies of
                           Inl p \<Rightarrow> Inl p
                         | Inr a \<Rightarrow>
                       (case percentile latencies 50 of
                           Inl p \<Rightarrow> Inl p
                         | Inr p50 \<Rightarrow>
                       (case percentile latencies 95 of
                           Inl p \<Rightarrow> Inl p
                         | Inr p95 \<Rightarrow>
                             (let stats2 = stats1
                                    \<lparr>MinMS := latencies ! 0,
                                     MaxMS := latencies ! (length latencies - 1),
                                     AvgMS := a, P50MS := p50, P95MS := p95,
                                     LossRate := fdiv (float64_of_int (samples - successful))
                                                      (float64_of_int samples)\<rparr>
                              in if PayloadURL opts \<noteq> []
                                 then Inr (stats2\<lparr>SpeedBps := measureSpeed e c (PayloadURL opts)\<rparr>,
                                           calls @ [Get c (PayloadURL opts)])
                                 else Inr (stats2, calls)))))))"

section \<open>The dispatcher of CheckMany and RunMany\<close>

text \<open>
  Both functions start one goroutine per address and wait for all of them. The
  interleaving semantics: each goroutine is at one of its statements, the main goroutine
  spawns and then receives, and a schedule is the order in which threads take their next
  step. A step is not enabled (\<open>None\<close>) when the statement blocks on a channel.
  A probe that panics is not recovered anywhere: the panic terminates the process, so
  the goroutine stops where it is (holding its semaphore slot), the panic is recorded
  in \<open>crashed\<close> and no thread takes a step afterwards.
\<close>

datatype gstate = Unspawned | AtAcquire | InProbe | AtRelease | AtDone | Finished | Panicked

datatype mstate = Spawning nat | Receiving nat | Returned

datatype thread = MainT | Go nat

record 'r dispatch =
  main_pc :: mstate
  g_pc :: "gstate list"
  sem :: nat
  done_ch :: nat
  results :: "'r list"
  crashed :: "panic option"

definition dispatch_init :: "'r \<Rightarrow> string list \<Rightarrow> 'r dispatch" where
  "dispatch_init zero addresses =
     \<lparr>main_pc = Spawning 0, g_pc = replicate (length addresses) Unspawned,
      sem = 0, done_ch = 0, results = replicate (length addresses) zero, crashed = None\<rparr>"

fun thread_step ::
  "nat \<Rightarrow> (nat \<Rightarrow> string \<Rightarrow> panic + 'r) \<Rightarrow> string list \<Rightarrow> thread \<Rightarrow> 'r dispatch
     \<Rightarrow> 'r dispatch option" where
  "thread_step C probe addresses MainT s =
     (case main_pc s of
        Spawning i \<Rightarrow>
          if i < length addresses
          then Some (s\<lparr>g_pc := (g_pc s)[i := AtAcquire], main_pc := Spawning (Suc i)\<rparr>)
          else Some (s\<lparr>main_pc := Receiving 0\<rparr>)
      | Receiving k \<Rightarrow>
          if k < length addresses
          then (if 0 < done_ch s
                then Some (s\<lparr>done_ch := done_ch s - 1, main_pc := Receiving (Suc k)\<rparr>)
                else None)
          else Some (s\<lparr>main_pc := Returned\<rparr>)
      | Returned \<Rightarrow> None)"
| "thread_step C probe addresses (Go idx) s =
     (if length addresses \<le> idx then None
      else case g_pc s ! idx of
        Unspawned \<Rightarrow> None
      | AtAcquire \<Rightarrow>
          if sem s < C
          then Some (s\<lparr>sem := Suc (sem s), g_pc := (g_pc s)[idx := InProbe]\<rparr>)
          else None
      | InProbe \<Rightarrow>
          (case probe idx (addresses ! idx) of
             Inl p \<Rightarrow> Some (s\<lparr>g_pc := (g_pc s)[idx := Panicked], crashed := Some p\<rparr>)
           | Inr r \<Rightarrow>
               Some (s\<lparr>results := (results s)[idx := r],
                       g_pc := (g_pc s)[idx := AtRelease]\<rparr>))
      | AtRelease \<Rightarrow>
          if 0 < sem s
          then Some (s\<lparr>sem := sem s - 1, g_pc := (g_pc s)[idx := AtDone]\<rparr>)
          else None
      | AtDone \<Rightarrow>
          if done_ch s < length addresses
          then Some (s\<lparr>done_ch := Suc (done_ch s), g_pc := (g_pc s)[idx := Finished]\<rparr>)
          else None
      | Finished \<Rightarrow> None
      | Panicked \<Rightarrow> None)"

definition dispatch_step ::
  "nat \<Rightarrow> (nat \<Rightarrow> string \<Rightarrow> panic + 'r) \<Rightarrow> string list \<Rightarrow> thread \<Rightarrow> 'r dispatch
     \<Rightarrow> 'r dispatch option" where
  "dispatch_step C probe addresses t s =
     (if crashed s \<noteq> None then None else thread_step C probe addresses t s)"

fun dispatch_exec ::
  "nat \<Rightarrow> (nat \<Rightarrow> string \<Rightarrow> panic + 'r) \<Rightarrow> string list \<Rightarrow> thread list \<Rightarrow> 'r dispatch
     \<Rightarrow> 'r dispatch option" where
  "dispatch_exec C probe addresses [] s = Some s"
| "dispatch_exec C probe addresses (t # ts) s =
     (case dispatch_step C probe addresses t s of
        None \<Rightarrow> None
      | Some s' \<Rightarrow> dispatch_exec C probe addresses ts s')"

definition executing :: "'r dispatch \<Rightarrow> nat" where
  "executing s = length (filter (\<lambda>g. g = InProbe) (g_pc s))"

definition limit :: "nat \<Rightarrow> int \<Rightarrow> nat" where
  "limit dflt c = (if c \<le> 0 then dflt else nat c)"

text \<open>\<open>Check\<close> has no panicking statement; \<open>Run\<close> panics when its \<open>make\<close> does.\<close>

definition CheckMany ::
  "(nat \<Rightarrow> env) \<Rightarrow> string list \<Rightarrow> 'a Options_scheme \<Rightarrow> thread list \<Rightarrow> Result dispatch option" where
  "CheckMany e addresses opts schedule =
     dispatch_exec (limit 10 (Concurrency opts))
       (\<lambda>idx address. Inr (fst (Check (e idx) address opts)))
       addresses schedule (dispatch_init zero_Result addresses)"



section \<open>Auxiliary notions for the dispatcher proofs\<close>

text \<open>
  The number of steps each thread still has to take, the number of values the main
  goroutine has received, and the invariant of the reachable states.
\<close>

fun remaining :: "gstate \<Rightarrow> nat" where
  "remaining Unspawned = 4"
| "remaining AtAcquire = 4"
| "remaining InProbe = 3"
| "remaining AtRelease = 2"
| "remaining AtDone = 1"
| "remaining Finished = 0"
| "remaining Panicked = 2"

fun main_remaining :: "nat \<Rightarrow> mstate \<Rightarrow> nat" where
  "main_remaining N (Spawning i) = (N - i) + N + 2"
| "main_remaining N (Receiving k) = (N - k) + 1"
| "main_remaining N Returned = 0"

definition steps_left :: "nat \<Rightarrow> 'r dispatch \<Rightarrow> nat" where
  "steps_left N s = main_remaining N (main_pc s) + sum_list (map remaining (g_pc s))"

fun received :: "nat \<Rightarrow> mstate \<Rightarrow> nat" where
  "received N (Spawning i) = 0"
| "received N (Receiving k) = k"
| "received N Returned = N"

definition holding :: "gstate \<Rightarrow> bool" where
  "holding g = (g = InProbe \<or> g = AtRelease \<or> g = Panicked)"

definition written :: "gstate \<Rightarrow> bool" where
  "written g = (g = AtRelease \<or> g = AtDone \<or> g = Finished)"

fun main_ok :: "nat \<Rightarrow> gstate list \<Rightarrow> mstate \<Rightarrow> bool" where
  "main_ok N gs (Spawning i) = (i \<le> N \<and> (\<forall>j<N. (gs ! j = Unspawned) = (i \<le> j)))"
| "main_ok N gs (Receiving k) = (k \<le> N \<and> (\<forall>j<N. gs ! j \<noteq> Unspawned))"
| "main_ok N gs Returned = (\<forall>j<N. gs ! j \<noteq> Unspawned)"

definition dispatch_inv ::
  "nat \<Rightarrow> (nat \<Rightarrow> string \<Rightarrow> panic + 'r) \<Rightarrow> string list \<Rightarrow> 'r dispatch \<Rightarrow> bool" where
  "dispatch_inv C probe addresses s =
     (length (g_pc s) = length addresses \<and>
      length (results s) = length addresses \<and>
      sem s = length (filter holding (g_pc s)) \<and>
      sem s \<le> C \<and>
      done_ch s + received (length addresses) (main_pc s)
        = length (filter (\<lambda>g. g = Finished) (g_pc s)) \<and>
      main_ok (length addresses) (g_pc s) (main_pc s) \<and>
      (\<forall>j<length addresses. written (g_pc s ! j) \<longrightarrow>
           probe j (addresses ! j) = Inr (results s ! j)) \<and>
      (\<forall>j<length addresses. g_pc s ! j = Panicked \<longrightarrow>
           crashed s \<noteq> None \<and> (\<exists>p. probe j (addresses ! j) = Inl p)) \<and>
      (crashed s \<noteq> None \<longrightarrow> (\<exists>j<length addresses. g_pc s ! j = Panicked)))"

section \<open>Auxiliary notions for the statistics proofs\<close>

text \<open>The index \<open>percentile\<close> computes before clamping it to the last valid index.\<close>

definition rank :: "nat \<Rightarrow> int \<Rightarrow> int" where
  "rank n p =
     int_of_float64
       (fadd (fmul (fdiv (float64_of_int p) 100) (float64_of_int (int n - 1))) (1 / 2))"

text \<open>Round-half-up of \<open>p / 100 * (n - 1)\<close>, in exact arithmetic.\<close>

definition round_half_up_rank :: "nat \<Rightarrow> int \<Rightarrow> int" where
  "round_half_up_rank n p = \<lfloor>(of_int p :: rat) / 100 * (of_nat n - 1) + 1 / 2\<rfloor>"

text \<open>
  The sample count \<open>Run\<close> works with after the coercion, and the latencies of the
  successful samples in the order they were taken.
\<close>

definition coerced_samples :: "'a bench_Options_scheme \<Rightarrow> int" where
  "coerced_samples opts = (if Samples_opt opts \<le> 0 then 5 else Samples_opt opts)"

definition measured :: "env \<Rightarrow> client \<Rightarrow> 'a bench_Options_scheme \<Rightarrow> int list" where
  "measured e c opts =
     fst (foldl (sample e c (defaultTestURL (TestURL opts))) ([], 0)
            [0..<nat (coerced_samples opts)])"

text \<open>Integer quotient truncated toward zero.\<close>

definition tdiv :: "int \<Rightarrow> int \<Rightarrow> int" where
  "tdiv a b = sgn a * sgn b * (\<bar>a\<bar> div \<bar>b\<bar>)"

section \<open>Example inputs\<close>

definition env_example :: env where
  "env_example =
     \<lparr>errtext = (\<lambda>err. ''library error''),
      dial = (\<lambda>hostport timeout.
                if hostport = ''10.0.0.1:8389'' then Inr 1000 else Inl ''connection refused''),
      hold = (\<lambda>hostport. 5),
      get = (\<lambda>c url i. if even i then Inr (1000000 * (int i + 10)) else Inl ''timeout''),
      download = (\<lambda>c url.
                Inr \<lparr>bytes_read = 1000, read_ns = 1000000000, read_error = Some ''unexpected EOF''\<rparr>)\<rparr>"

definition opts_example :: Options where
  "opts_example = \<lparr>Timeout = 10000000000, TestURL = [], Concurrency = 1\<rparr>"

definition bench_opts_example :: bench_Options where
  "bench_opts_example =
     \<lparr>Timeout = 15000000000, TestURL = [], Concurrency = 0, Samples_opt = 0,
      PayloadURL = ''http://speed.example.com/10mb''\<rparr>"


definition addresses_example :: "string list" where
  "addresses_example = [''10.0.0.1:8389'', ''ss://'']"



definition schedule_first_last :: "thread list" where
  "schedule_first_last =
     [MainT, MainT, MainT, Go 0, Go 0, Go 0, Go 0, Go 1, Go 1, Go 1, Go 1, MainT, MainT, MainT]"



definition schedule_last_first :: "thread list" where
  "schedule_last_first =
     [MainT, MainT, Go 1, Go 1, MainT, Go 1, Go 0, Go 1, MainT, Go 0, Go 0, Go 0, MainT, MainT]"


definition env_no_forward :: env where
  "env_no_forward = env_example\<lparr>get := (\<lambda>c url i. Inl ''EOF'')\<rparr>"

definition socks5_url_example :: "string \<Rightarrow> URL" where
  "socks5_url_example hostport =
     \<lparr>Scheme = ''socks5'', Opaque = [], User = None, Host = hostport, Path = [],
      RawQuery = [], Fragment = []\<rparr>"


definition latencies_example :: "int list" where
  "latencies_example = [10, 20, 30, 40, 50, 60, 70, 80, 90, 100]"

definition latencies_26 :: "int list" where
  "latencies_26 = [0, 1, 2, 3, 4, 5, 6, 7, 8, 9, 10, 11, 12, 13, 14, 15, 16, 17, 18, 19,
                   20, 21, 22, 23, 24, 25]"

lemma ilog2_bounds_ge1:
  assumes "1 \<le> (x::rat)"
  shows "2 powi (ilog2 x) \<le> x \<and> x < 2 powi (ilog2 x + 1)"
proof -
  let ?f = "\<lfloor>x\<rfloor>"
  from assms have fpos: "0 < ?f" by simp
  from bitlen_bounds [OF fpos]
  have lo: "2 ^ nat (bitlen ?f - 1) \<le> ?f" and hi: "?f < 2 ^ nat (bitlen ?f)" by auto
  from fpos have b1: "1 \<le> bitlen ?f"
    using bitlen_eq_zero_iff [of ?f] bitlen_nonneg [of ?f] by linarith
  have e: "ilog2 x = bitlen ?f - 1" using assms by (simp add: ilog2_def)
  have "(2::rat) powi (bitlen ?f - 1) = 2 ^ nat (bitlen ?f - 1)"
    using b1 by (simp add: power_int_nonneg_exp)
  also have "\<dots> = of_int (2 ^ nat (bitlen ?f - 1))" by simp
  also have "\<dots> \<le> of_int ?f" using lo by (simp only: of_int_le_iff)
  also have "\<dots> \<le> x" by simp
  finally have A: "2 powi (ilog2 x) \<le> x" by (simp add: e)
  from hi have "?f + 1 \<le> 2 ^ nat (bitlen ?f)" by simp
  then have "(of_int (?f + 1) :: rat) \<le> of_int (2 ^ nat (bitlen ?f))"
    by (simp only: of_int_le_iff)
  moreover have "x < of_int (?f + 1)" by linarith
  ultimately have "x < of_int (2 ^ nat (bitlen ?f))" by linarith
  also have "\<dots> = 2 powi (bitlen ?f)"
    using b1 by (simp add: power_int_nonneg_exp)
  finally have B: "x < 2 powi (ilog2 x + 1)" by (simp add: e)
  from A B show ?thesis ..
qed

lemma ilog2_bounds_lt1:
  assumes "0 < (x::rat)" "x < 1"
  shows "2 powi (ilog2 x) \<le> x \<and> x < 2 powi (ilog2 x + 1)"
proof -
  let ?y = "1 / x"
  let ?c = "\<lceil>?y\<rceil>"
  let ?k = "bitlen (?c - 1)"
  from assms have y1: "1 < ?y" by simp
  then have c2: "2 \<le> ?c" by linarith
  then have cpos: "0 < ?c - 1" by simp
  from bitlen_bounds [OF cpos]
  have lo: "2 ^ nat (?k - 1) \<le> ?c - 1" and hi: "?c - 1 < 2 ^ nat ?k" by auto
  from cpos have k1: "1 \<le> ?k"
    using bitlen_eq_zero_iff [of "?c - 1"] bitlen_nonneg [of "?c - 1"] by linarith
  have e: "ilog2 x = - ?k" using assms by (simp add: ilog2_def)
  from hi have "?c \<le> 2 ^ nat ?k" by simp
  then have "(of_int ?c :: rat) \<le> of_int (2 ^ nat ?k)" by (simp only: of_int_le_iff)
  moreover have "?y \<le> of_int ?c" by linarith
  ultimately have "?y \<le> of_int (2 ^ nat ?k)" by (rule order_trans [rotated])
  also have "(of_int (2 ^ nat ?k) :: rat) = 2 ^ nat ?k" by simp
  finally have yle: "?y \<le> 2 ^ nat ?k" .
  have p: "(2::rat) powi ?k = 2 ^ nat ?k" using k1 by (simp add: power_int_nonneg_exp)
  from yle assms(1) have "1 \<le> 2 ^ nat ?k * x" by (simp add: pos_divide_le_eq)
  then have "1 / (2::rat) ^ nat ?k \<le> x" by (simp add: pos_divide_le_eq mult.commute)
  then have A: "2 powi (ilog2 x) \<le> x"
    by (simp add: e power_int_minus_divide p)
  from lo have "(of_int (2 ^ nat (?k - 1)) :: rat) \<le> of_int (?c - 1)" by (simp only: of_int_le_iff)
  moreover have "of_int (?c - 1) < ?y" by linarith
  ultimately have "(of_int (2 ^ nat (?k - 1)) :: rat) < ?y" by (rule le_less_trans)
  moreover have "(of_int (2 ^ nat (?k - 1)) :: rat) = 2 ^ nat (?k - 1)" by simp
  ultimately have ylt: "2 ^ nat (?k - 1) < ?y" by (simp only:)
  have p': "(2::rat) powi (?k - 1) = 2 ^ nat (?k - 1)" using k1 by (simp add: power_int_nonneg_exp)
  from ylt assms(1) have "2 ^ nat (?k - 1) * x < 1" by (simp add: pos_less_divide_eq)
  then have "x < 1 / (2::rat) ^ nat (?k - 1)" by (simp add: pos_less_divide_eq mult.commute)
  moreover have "(2::rat) powi (- ?k + 1) = 1 / 2 powi (?k - 1)"
    using power_int_minus_divide [of "2::rat" "?k - 1"] by simp
  ultimately have B: "x < 2 powi (ilog2 x + 1)"
    by (simp add: e p')
  from A B show ?thesis ..
qed

lemma ilog2_bounds:
  "0 < (x::rat) \<Longrightarrow> 2 powi (ilog2 x) \<le> x \<and> x < 2 powi (ilog2 x + 1)"
  using ilog2_bounds_ge1 [of x] ilog2_bounds_lt1 [of x] by (cases "1 \<le> x") auto

lemma powi2_less_imp: "(2::rat) powi a < 2 powi b \<Longrightarrow> a < b"
  by (rule ccontr) (simp add: not_less power_int_increasing leD)

lemma ilog2_unique:
  assumes "0 < (x::rat)" "2 powi e \<le> x" "x < 2 powi (e + 1)"
  shows "ilog2 x = e"
proof -
  from ilog2_bounds [OF assms(1)]
  have lo: "2 powi (ilog2 x) \<le> x" and hi: "x < 2 powi (ilog2 x + 1)" by auto
  from lo assms(3) have "(2::rat) powi (ilog2 x) < 2 powi (e + 1)" by linarith
  then have a: "ilog2 x < e + 1" by (rule powi2_less_imp)
  from assms(2) hi have "(2::rat) powi e < 2 powi (ilog2 x + 1)" by linarith
  then have b: "e < ilog2 x + 1" by (rule powi2_less_imp)
  from a b show ?thesis by simp
qed

lemma ilog2_mono:
  assumes "0 < (x::rat)" "x \<le> y"
  shows "ilog2 x \<le> ilog2 y"
proof -
  from assms have y: "0 < y" by simp
  from ilog2_bounds [OF assms(1)] ilog2_bounds [OF y] assms(2)
  have "(2::rat) powi (ilog2 x) < 2 powi (ilog2 y + 1)" by linarith
  then have "ilog2 x < ilog2 y + 1" by (rule powi2_less_imp)
  then show ?thesis by simp
qed


lemma rhe_floor_bounds: "\<lfloor>q\<rfloor> \<le> round_half_even q \<and> round_half_even q \<le> \<lfloor>q\<rfloor> + 1"
  by (simp add: round_half_even_def Let_def)

lemma rhe_of_int [simp]: "round_half_even (of_int k) = k"
  by (simp add: round_half_even_def Let_def)

lemma rhe_error: "\<bar>of_int (round_half_even q) - q\<bar> \<le> 1 / 2"
proof -
  have "of_int \<lfloor>q\<rfloor> \<le> q" "q < of_int \<lfloor>q\<rfloor> + 1" by linarith+
  then show ?thesis
    by (auto simp: round_half_even_def Let_def abs_le_iff)
qed

lemma rhe_mono:
  assumes "q \<le> q'"
  shows "round_half_even q \<le> round_half_even q'"
proof (cases "\<lfloor>q\<rfloor> = \<lfloor>q'\<rfloor>")
  case True
  with assms show ?thesis
    by (auto simp: round_half_even_def Let_def)
next
  case False
  from assms have "\<lfloor>q\<rfloor> \<le> \<lfloor>q'\<rfloor>" by (rule floor_mono)
  with False have "\<lfloor>q\<rfloor> + 1 \<le> \<lfloor>q'\<rfloor>" by simp
  with rhe_floor_bounds [of q] rhe_floor_bounds [of q'] show ?thesis by linarith
qed

lemma powi2_pos [simp]: "0 < (2::rat) powi e"
  by (simp add: power_int_def)

lemma float64_pos_scaled:
  assumes "0 < (x::rat)"
  shows "2 ^ 52 \<le> x / 2 powi (ilog2 x - 52) \<and> x / 2 powi (ilog2 x - 52) < 2 ^ 53"
proof -
  from ilog2_bounds [OF assms]
  have lo: "2 powi (ilog2 x) \<le> x" and hi: "x < 2 powi (ilog2 x + 1)" by auto
  have a: "(2::rat) powi (ilog2 x) = 2 ^ 52 * 2 powi (ilog2 x - 52)"
    using power_int_add [of "2::rat" 52 "ilog2 x - 52"] by simp
  have b: "(2::rat) powi (ilog2 x + 1) = 2 ^ 53 * 2 powi (ilog2 x - 52)"
    using power_int_add [of "2::rat" 53 "ilog2 x - 52"] by (simp add: add.commute)
  from lo a have "2 ^ 52 \<le> x / 2 powi (ilog2 x - 52)"
    by (simp add: pos_le_divide_eq)
  moreover from hi b have "x / 2 powi (ilog2 x - 52) < 2 ^ 53"
    by (simp add: pos_divide_less_eq)
  ultimately show ?thesis ..
qed

lemma float64_pos_eq:
  "0 < x \<Longrightarrow> float64 x = 2 powi (ilog2 x - 52) * of_int (round_half_even (x / 2 powi (ilog2 x - 52)))"
  by (simp add: float64_def Let_def)

lemma float64_pos_bounds:
  assumes "0 < (x::rat)"
  shows "2 powi (ilog2 x) \<le> float64 x \<and> float64 x \<le> 2 powi (ilog2 x + 1)"
proof -
  let ?u = "(2::rat) powi (ilog2 x - 52)"
  let ?m = "round_half_even (x / ?u)"
  from float64_pos_scaled [OF assms] have s: "2 ^ 52 \<le> x / ?u" "x / ?u < 2 ^ 53" by auto
  have "round_half_even (of_int (2 ^ 52)) \<le> ?m"
    by (rule rhe_mono) (use s in simp)
  then have mlo: "2 ^ 52 \<le> ?m" by (simp only: rhe_of_int)
  have "?m \<le> round_half_even (of_int (2 ^ 53))"
    by (rule rhe_mono) (use s in simp)
  then have mhi: "?m \<le> 2 ^ 53" by (simp only: rhe_of_int)
  have a: "(2::rat) powi (ilog2 x) = ?u * 2 ^ 52"
    using power_int_add [of "2::rat" "ilog2 x - 52" 52] by simp
  have b: "(2::rat) powi (ilog2 x + 1) = ?u * 2 ^ 53"
    using power_int_add [of "2::rat" "ilog2 x - 52" 53] by (simp add: add.commute)
  from mlo have "(of_int (2 ^ 52) :: rat) \<le> of_int ?m" by (simp only: of_int_le_iff)
  then have "?u * 2 ^ 52 \<le> ?u * of_int ?m" by simp
  moreover from mhi have "(of_int ?m :: rat) \<le> of_int (2 ^ 53)" by (simp only: of_int_le_iff)
  then have "?u * of_int ?m \<le> ?u * 2 ^ 53" by simp
  ultimately show ?thesis
    unfolding float64_pos_eq [OF assms] a b by blast
qed

lemma float64_mono_pos:
  assumes "0 < (x::rat)" "x \<le> y"
  shows "float64 x \<le> float64 y"
proof -
  from assms have y: "0 < y" by simp
  from ilog2_mono [OF assms] have le: "ilog2 x \<le> ilog2 y" .
  show ?thesis
  proof (cases "ilog2 x = ilog2 y")
    case True
    let ?u = "(2::rat) powi (ilog2 y - 52)"
    from assms(2) have "x / ?u \<le> y / ?u" by (simp add: divide_right_mono)
    then have "round_half_even (x / ?u) \<le> round_half_even (y / ?u)" by (rule rhe_mono)
    then have "(of_int (round_half_even (x / ?u)) :: rat) \<le> of_int (round_half_even (y / ?u))"
      by (simp only: of_int_le_iff)
    then have "?u * of_int (round_half_even (x / ?u)) \<le> ?u * of_int (round_half_even (y / ?u))"
      by simp
    then show ?thesis
      unfolding float64_pos_eq [OF assms(1)] float64_pos_eq [OF y] True .
  next
    case False
    with le have "ilog2 x + 1 \<le> ilog2 y" by simp
    then have "(2::rat) powi (ilog2 x + 1) \<le> 2 powi (ilog2 y)"
      by (intro power_int_increasing) auto
    with float64_pos_bounds [OF assms(1)] float64_pos_bounds [OF y] show ?thesis by linarith
  qed
qed

lemma float64_zero [simp]: "float64 0 = 0"
  by (simp add: float64_def)

lemma float64_nonneg: "0 \<le> x \<Longrightarrow> 0 \<le> float64 x"
proof (cases "x = 0")
  case True
  then show ?thesis by simp
next
  case False
  assume "0 \<le> x"
  with False have "0 < x" by simp
  from float64_pos_bounds [OF this] powi2_pos [of "ilog2 x"] show ?thesis by linarith
qed

lemma float64_mono:
  assumes "0 \<le> (x::rat)" "x \<le> y"
  shows "float64 x \<le> float64 y"
proof (cases "x = 0")
  case True
  with assms float64_nonneg [of y] show ?thesis by simp
next
  case False
  with assms have "0 < x" by simp
  from float64_mono_pos [OF this assms(2)] show ?thesis .
qed

lemma float64_error:
  assumes "0 < (x::rat)"
  shows "\<bar>float64 x - x\<bar> \<le> x / 2 ^ 53"
proof -
  let ?u = "(2::rat) powi (ilog2 x - 52)"
  let ?m = "round_half_even (x / ?u)"
  have "float64 x - x = ?u * (of_int ?m - x / ?u)"
    unfolding float64_pos_eq [OF assms] by (simp add: right_diff_distrib)
  then have "\<bar>float64 x - x\<bar> = ?u * \<bar>of_int ?m - x / ?u\<bar>"
    by (simp add: abs_mult)
  also have "\<dots> \<le> ?u * (1 / 2)"
    using rhe_error [of "x / ?u"] by (intro mult_left_mono) auto
  also have "\<dots> \<le> x / 2 ^ 53"
  proof -
    from float64_pos_scaled [OF assms] have "2 ^ 52 \<le> x / ?u" by simp
    then have "2 ^ 52 * ?u \<le> x" by (simp add: pos_le_divide_eq)
    then show ?thesis by simp
  qed
  finally show ?thesis .
qed

lemma float64_exact:
  assumes k: "0 < k" "k < 2 ^ 53"
  shows "float64 (of_int k * 2 powi j) = of_int k * 2 powi j"
proof -
  let ?x = "of_int k * (2::rat) powi j"
  from k have xpos: "0 < ?x" by simp
  let ?e = "ilog2 ?x"
  from ilog2_bounds [OF xpos] have lo: "2 powi ?e \<le> ?x" by simp
  from k have "(of_int k :: rat) < of_int (2 ^ 53)" by (simp only: of_int_less_iff)
  then have "?x < 2 ^ 53 * 2 powi j" by simp
  also have "\<dots> = 2 powi (53 + j)"
    using power_int_add [of "2::rat" 53 j] by simp
  finally have "(2::rat) powi ?e < 2 powi (53 + j)" using lo by linarith
  then have "?e < 53 + j" by (rule powi2_less_imp)
  then have d: "0 \<le> j - (?e - 52)" by simp
  have "?x / 2 powi (?e - 52) = of_int k * 2 powi (j - (?e - 52))"
    by (simp add: power_int_diff)
  also have "\<dots> = of_int (k * 2 ^ nat (j - (?e - 52)))"
    using d by (simp add: power_int_nonneg_exp)
  finally have q: "?x / 2 powi (?e - 52) = of_int (k * 2 ^ nat (j - (?e - 52)))" .
  have "float64 ?x = 2 powi (?e - 52) * (?x / 2 powi (?e - 52))"
    unfolding float64_pos_eq [OF xpos] by (simp only: q rhe_of_int)
  then show ?thesis by simp
qed

lemma filter_update_count:
  "i < length xs \<Longrightarrow>
     length (filter P (xs[i := v])) + (if P (xs ! i) then 1 else 0)
       = length (filter P xs) + (if P v then 1 else 0)"
proof (induction xs arbitrary: i)
  case Nil
  then show ?case by simp
next
  case (Cons x xs)
  then show ?case by (cases i) auto
qed

lemma sum_update_remaining:
  "i < length gs \<Longrightarrow>
     sum_list (map remaining (gs[i := v])) + remaining (gs ! i)
       = sum_list (map remaining gs) + remaining v"
proof (induction gs arbitrary: i)
  case Nil
  then show ?case by simp
next
  case (Cons g gs)
  then show ?case by (cases i) auto
qed

lemma filter_length_le: "length (filter P xs) \<le> length xs"
  by simp

lemma all_finished_if_count:
  assumes "length (filter (\<lambda>g. g = Finished) gs) = length gs"
  shows "\<forall>j<length gs. gs ! j = Finished"
proof -
  have "length (filter (\<lambda>g. \<not> g = Finished) gs) = 0"
    using sum_length_filter_compl [of "\<lambda>g. g = Finished" gs] assms by simp
  then have "\<forall>x\<in>set gs. x = Finished"
    by (simp add: filter_empty_conv)
  then show ?thesis by simp
qed

lemma exists_unfinished:
  "length (filter (\<lambda>g. g = Finished) gs) < length gs \<Longrightarrow> \<exists>j<length gs. gs ! j \<noteq> Finished"
proof (rule ccontr)
  assume lt: "length (filter (\<lambda>g. g = Finished) gs) < length gs"
  assume "\<not> (\<exists>j<length gs. gs ! j \<noteq> Finished)"
  then have "\<forall>x\<in>set gs. x = Finished" by (auto simp: in_set_conv_nth)
  then have "filter (\<lambda>g. g = Finished) gs = gs" by (simp add: filter_id_conv)
  with lt show False by simp
qed

lemma no_holding_if_zero:
  "length (filter holding gs) = 0 \<Longrightarrow> j < length gs \<Longrightarrow> \<not> holding (gs ! j)"
  by (metis filter_empty_conv length_0_conv nth_mem)

lemma holding_pos:
  "j < length gs \<Longrightarrow> holding (gs ! j) \<Longrightarrow> 0 < length (filter holding gs)"
  using no_holding_if_zero by fastforce

lemma dispatch_inv_init: "0 < C \<Longrightarrow> dispatch_inv C probe addresses (dispatch_init zero addresses)"
  by (simp add: dispatch_inv_def dispatch_init_def written_def holding_def)

lemma main_ok_update:
  "main_ok N gs m \<Longrightarrow> idx < N \<Longrightarrow> length gs = N \<Longrightarrow> gs ! idx \<noteq> Unspawned \<Longrightarrow>
   v \<noteq> Unspawned \<Longrightarrow> main_ok N (gs[idx := v]) m"
  by (cases m) (auto simp: nth_list_update)

lemma main_ok_spawn:
  "main_ok N gs (Spawning i) \<Longrightarrow> i < N \<Longrightarrow> length gs = N \<Longrightarrow>
   main_ok N (gs[i := AtAcquire]) (Spawning (Suc i))"
  by (auto simp: nth_list_update)

lemma written_update_keep:
  "\<forall>j<N. written (gs ! j) \<longrightarrow> f j = Inr (rs ! j) \<Longrightarrow> length gs = N \<Longrightarrow> idx < N \<Longrightarrow>
   (written v \<longrightarrow> written (gs ! idx)) \<Longrightarrow>
   \<forall>j<N. written (gs[idx := v] ! j) \<longrightarrow> f j = Inr (rs ! j)"
  by (auto simp: nth_list_update)

lemma written_update_store:
  "\<forall>j<N. written (gs ! j) \<longrightarrow> f j = Inr (rs ! j) \<Longrightarrow> length gs = N \<Longrightarrow> length rs = N \<Longrightarrow>
   idx < N \<Longrightarrow> f idx = Inr r \<Longrightarrow>
   \<forall>j<N. written (gs[idx := v] ! j) \<longrightarrow> f j = Inr (rs[idx := r] ! j)"
  by (auto simp: nth_list_update)

lemma no_panicked_update:
  "\<forall>j<N. gs ! j \<noteq> Panicked \<Longrightarrow> length gs = N \<Longrightarrow> v \<noteq> Panicked \<Longrightarrow>
   \<forall>j<N. gs[idx := v] ! j \<noteq> Panicked"
  by (metis nth_list_update_eq nth_list_update_neq)

lemma running_no_panicked:
  "dispatch_inv C probe addresses s \<Longrightarrow> crashed s = None \<Longrightarrow>
   \<forall>j<length addresses. g_pc s ! j \<noteq> Panicked"
  by (auto simp: dispatch_inv_def)

lemma step_main_inv:
  assumes inv: "dispatch_inv C probe addresses s"
    and nc: "crashed s = None"
    and st: "thread_step C probe addresses MainT s = Some s'"
  shows "dispatch_inv C probe addresses s'"
proof (cases "main_pc s")
  case (Spawning i)
  show ?thesis
  proof (cases "i < length addresses")
    case True
    with st Spawning have s': "s' = s\<lparr>g_pc := (g_pc s)[i := AtAcquire], main_pc := Spawning (Suc i)\<rparr>"
      by simp
    from inv Spawning True have un: "g_pc s ! i = Unspawned" and len: "length (g_pc s) = length addresses"
      by (auto simp: dispatch_inv_def)
    from len True have il: "i < length (g_pc s)" by simp
    have h: "length (filter holding ((g_pc s)[i := AtAcquire])) = length (filter holding (g_pc s))"
      using filter_update_count [OF il, of holding AtAcquire] un by (simp add: holding_def)
    have f: "length (filter (\<lambda>g. g = Finished) ((g_pc s)[i := AtAcquire]))
               = length (filter (\<lambda>g. g = Finished) (g_pc s))"
      using filter_update_count [OF il, of "\<lambda>g. g = Finished" AtAcquire] un by simp
    from inv Spawning have mo: "main_ok (length addresses) (g_pc s) (Spawning i)"
      by (simp add: dispatch_inv_def)
    have m: "main_ok (length addresses) ((g_pc s)[i := AtAcquire]) (Spawning (Suc i))"
      by (rule main_ok_spawn [OF mo True len])
    from inv have w0: "\<forall>j<length addresses. written (g_pc s ! j) \<longrightarrow>
               probe j (addresses ! j) = Inr (results s ! j)"
      by (simp add: dispatch_inv_def)
    have w: "\<forall>j<length addresses. written ((g_pc s)[i := AtAcquire] ! j) \<longrightarrow>
               probe j (addresses ! j) = Inr (results s ! j)"
      by (rule written_update_keep [OF w0 len True]) (simp add: written_def)
    have np: "\<forall>j<length addresses. (g_pc s)[i := AtAcquire] ! j \<noteq> Panicked"
      by (rule no_panicked_update [OF running_no_panicked [OF inv nc] len]) simp
    show ?thesis
      using inv Spawning h f m w np nc unfolding s' dispatch_inv_def by simp
  next
    case False
    with st Spawning have s': "s' = s\<lparr>main_pc := Receiving 0\<rparr>" by simp
    show ?thesis
      using inv Spawning False unfolding s' dispatch_inv_def by auto
  qed
next
  case (Receiving k)
  show ?thesis
  proof (cases "k < length addresses")
    case True
    with st Receiving have pos: "0 < done_ch s"
      and s': "s' = s\<lparr>done_ch := done_ch s - 1, main_pc := Receiving (Suc k)\<rparr>"
      by (auto split: if_splits)
    show ?thesis
      using inv Receiving True pos unfolding s' dispatch_inv_def by auto
  next
    case False
    with st Receiving have s': "s' = s\<lparr>main_pc := Returned\<rparr>" by simp
    show ?thesis
      using inv Receiving False unfolding s' dispatch_inv_def by auto
  qed
next
  case Returned
  with st show ?thesis by simp
qed

lemma step_go_inv:
  assumes inv: "dispatch_inv C probe addresses s"
    and nc: "crashed s = None"
    and st: "thread_step C probe addresses (Go idx) s = Some s'"
  shows "dispatch_inv C probe addresses s'"
proof -
  from st have lt: "idx < length addresses" by (auto split: if_splits)
  from inv have len: "length (g_pc s) = length addresses" by (simp add: dispatch_inv_def)
  from lt len have il: "idx < length (g_pc s)" by simp
  note h = filter_update_count [OF il, of holding]
  note f = filter_update_count [OF il, of "\<lambda>g. g = Finished"]
  from inv have mo: "main_ok (length addresses) (g_pc s) (main_pc s)"
    by (simp add: dispatch_inv_def)
  from inv have w0: "\<forall>j<length addresses. written (g_pc s ! j) \<longrightarrow>
               probe j (addresses ! j) = Inr (results s ! j)"
    by (simp add: dispatch_inv_def)
  from inv have rlen: "length (results s) = length addresses"
    by (simp add: dispatch_inv_def)
  note np0 = running_no_panicked [OF inv nc]
  show ?thesis
  proof (cases "g_pc s ! idx")
    case Unspawned
    with st lt show ?thesis by simp
  next
    case AtAcquire
    with st lt have c: "sem s < C"
      and s': "s' = s\<lparr>sem := Suc (sem s), g_pc := (g_pc s)[idx := InProbe]\<rparr>"
      by (auto split: if_splits)
    have m: "main_ok (length addresses) ((g_pc s)[idx := InProbe]) (main_pc s)"
      using main_ok_update [OF mo lt len] AtAcquire by simp
    have w: "\<forall>j<length addresses. written ((g_pc s)[idx := InProbe] ! j) \<longrightarrow>
               probe j (addresses ! j) = Inr (results s ! j)"
      by (rule written_update_keep [OF w0 len lt]) (simp add: written_def)
    have np: "\<forall>j<length addresses. (g_pc s)[idx := InProbe] ! j \<noteq> Panicked"
      by (rule no_panicked_update [OF np0 len]) simp
    show ?thesis
      using inv c m w np nc h [of InProbe] f [of InProbe] AtAcquire
      unfolding s' dispatch_inv_def by (simp add: holding_def)
  next
    case InProbe
    show ?thesis
    proof (cases "probe idx (addresses ! idx)")
      case (Inr r)
      with st lt InProbe have s': "s' = s\<lparr>results := (results s)[idx := r],
                                  g_pc := (g_pc s)[idx := AtRelease]\<rparr>"
        by simp
      have m: "main_ok (length addresses) ((g_pc s)[idx := AtRelease]) (main_pc s)"
        using main_ok_update [OF mo lt len] InProbe by simp
      have w: "\<forall>j<length addresses. written ((g_pc s)[idx := AtRelease] ! j) \<longrightarrow>
                 probe j (addresses ! j) = Inr ((results s)[idx := r] ! j)"
        by (rule written_update_store [OF w0 len rlen lt Inr])
      have np: "\<forall>j<length addresses. (g_pc s)[idx := AtRelease] ! j \<noteq> Panicked"
        by (rule no_panicked_update [OF np0 len]) simp
      show ?thesis
        using inv m w np nc h [of AtRelease] f [of AtRelease] InProbe
        unfolding s' dispatch_inv_def by (simp add: holding_def)
    next
      case (Inl p)
      with st lt InProbe have s': "s' = s\<lparr>g_pc := (g_pc s)[idx := Panicked], crashed := Some p\<rparr>"
        by simp
      have m: "main_ok (length addresses) ((g_pc s)[idx := Panicked]) (main_pc s)"
        using main_ok_update [OF mo lt len] InProbe by simp
      have w: "\<forall>j<length addresses. written ((g_pc s)[idx := Panicked] ! j) \<longrightarrow>
                 probe j (addresses ! j) = Inr (results s ! j)"
        by (rule written_update_keep [OF w0 len lt]) (simp add: written_def)
      have pk: "\<forall>j<length addresses. (g_pc s)[idx := Panicked] ! j = Panicked \<longrightarrow>
                 (\<exists>q. probe j (addresses ! j) = Inl q)"
        using np0 Inl len by (metis nth_list_update_neq)
      have ex: "\<exists>j<length addresses. (g_pc s)[idx := Panicked] ! j = Panicked"
        using lt len by (auto simp: nth_list_update)
      show ?thesis
        using inv m w pk ex h [of Panicked] f [of Panicked] InProbe
        unfolding s' dispatch_inv_def by (simp add: holding_def)
    qed
  next
    case AtRelease
    with st lt have c: "0 < sem s"
      and s': "s' = s\<lparr>sem := sem s - 1, g_pc := (g_pc s)[idx := AtDone]\<rparr>"
      by (auto split: if_splits)
    have m: "main_ok (length addresses) ((g_pc s)[idx := AtDone]) (main_pc s)"
      using main_ok_update [OF mo lt len] AtRelease by simp
    have w: "\<forall>j<length addresses. written ((g_pc s)[idx := AtDone] ! j) \<longrightarrow>
               probe j (addresses ! j) = Inr (results s ! j)"
      by (rule written_update_keep [OF w0 len lt]) (simp add: written_def AtRelease)
    have np: "\<forall>j<length addresses. (g_pc s)[idx := AtDone] ! j \<noteq> Panicked"
      by (rule no_panicked_update [OF np0 len]) simp
    show ?thesis
      using inv c m w np nc h [of AtDone] f [of AtDone] AtRelease
      unfolding s' dispatch_inv_def by (auto simp: holding_def)
  next
    case AtDone
    with st lt have c: "done_ch s < length addresses"
      and s': "s' = s\<lparr>done_ch := Suc (done_ch s), g_pc := (g_pc s)[idx := Finished]\<rparr>"
      by (auto split: if_splits)
    have m: "main_ok (length addresses) ((g_pc s)[idx := Finished]) (main_pc s)"
      using main_ok_update [OF mo lt len] AtDone by simp
    have w: "\<forall>j<length addresses. written ((g_pc s)[idx := Finished] ! j) \<longrightarrow>
               probe j (addresses ! j) = Inr (results s ! j)"
      by (rule written_update_keep [OF w0 len lt]) (simp add: written_def AtDone)
    have np: "\<forall>j<length addresses. (g_pc s)[idx := Finished] ! j \<noteq> Panicked"
      by (rule no_panicked_update [OF np0 len]) simp
    show ?thesis
      using inv c m w np nc h [of Finished] f [of Finished] AtDone
      unfolding s' dispatch_inv_def by (simp add: holding_def)
  next
    case Finished
    with st lt show ?thesis by simp
  next
    case Panicked
    with st lt show ?thesis by simp
  qed
qed

lemma step_running:
  "dispatch_step C probe addresses t s = Some s' \<Longrightarrow>
   crashed s = None \<and> thread_step C probe addresses t s = Some s'"
  by (simp add: dispatch_step_def split: if_splits)

lemma step_inv:
  assumes "dispatch_inv C probe addresses s"
    and "dispatch_step C probe addresses t s = Some s'"
  shows "dispatch_inv C probe addresses s'"
proof -
  from step_running [OF assms(2)] have nc: "crashed s = None"
    and st: "thread_step C probe addresses t s = Some s'" by auto
  show ?thesis
  proof (cases t)
    case MainT
    with st show ?thesis using step_main_inv [OF assms(1) nc] by simp
  next
    case (Go idx)
    with st show ?thesis using step_go_inv [OF assms(1) nc] by simp
  qed
qed

lemma exec_inv:
  "dispatch_inv C probe addresses s \<Longrightarrow> dispatch_exec C probe addresses sched s = Some s' \<Longrightarrow>
   dispatch_inv C probe addresses s'"
proof (induction sched arbitrary: s)
  case Nil
  then show ?case by simp
next
  case (Cons t ts)
  then show ?case by (auto split: option.splits dest: step_inv)
qed

lemma step_steps_left:
  assumes inv: "dispatch_inv C probe addresses s"
    and ds: "dispatch_step C probe addresses t s = Some s'"
  shows "Suc (steps_left (length addresses) s') = steps_left (length addresses) s"
proof (cases t)
  case MainT
  from step_running [OF ds] MainT have st: "thread_step C probe addresses MainT s = Some s'"
    by simp
  show ?thesis
  proof (cases "main_pc s")
    case (Spawning i)
    show ?thesis
    proof (cases "i < length addresses")
      case True
      with st Spawning
      have s': "s' = s\<lparr>g_pc := (g_pc s)[i := AtAcquire], main_pc := Spawning (Suc i)\<rparr>"
        by simp
      from inv Spawning True have un: "g_pc s ! i = Unspawned"
        and il: "i < length (g_pc s)"
        by (auto simp: dispatch_inv_def)
      show ?thesis
        using sum_update_remaining [OF il, of AtAcquire] un True Spawning
        unfolding s' steps_left_def by simp
    next
      case False
      with st Spawning have s': "s' = s\<lparr>main_pc := Receiving 0\<rparr>" by simp
      show ?thesis using False Spawning unfolding s' steps_left_def by simp
    qed
  next
    case (Receiving k)
    show ?thesis
    proof (cases "k < length addresses")
      case True
      with st Receiving
      have s': "s' = s\<lparr>done_ch := done_ch s - 1, main_pc := Receiving (Suc k)\<rparr>"
        by (auto split: if_splits)
      show ?thesis using True Receiving unfolding s' steps_left_def by simp
    next
      case False
      with st Receiving have s': "s' = s\<lparr>main_pc := Returned\<rparr>" by simp
      show ?thesis using False Receiving unfolding s' steps_left_def by simp
    qed
  next
    case Returned
    with st show ?thesis by simp
  qed
next
  case (Go idx)
  from step_running [OF ds] Go have st: "thread_step C probe addresses (Go idx) s = Some s'"
    by simp
  from st have lt: "idx < length addresses" by (auto split: if_splits)
  with inv have il: "idx < length (g_pc s)" by (simp add: dispatch_inv_def)
  note r = sum_update_remaining [OF il]
  show ?thesis
  proof (cases "g_pc s ! idx")
    case Unspawned
    with st lt show ?thesis by simp
  next
    case AtAcquire
    with st lt have s': "s' = s\<lparr>sem := Suc (sem s), g_pc := (g_pc s)[idx := InProbe]\<rparr>"
      by (auto split: if_splits)
    show ?thesis using r [of InProbe] AtAcquire unfolding s' steps_left_def by simp
  next
    case InProbe
    show ?thesis
    proof (cases "probe idx (addresses ! idx)")
      case (Inr v)
      with st lt InProbe
      have s': "s' = s\<lparr>results := (results s)[idx := v],
                        g_pc := (g_pc s)[idx := AtRelease]\<rparr>"
        by simp
      show ?thesis using r [of AtRelease] InProbe unfolding s' steps_left_def by simp
    next
      case (Inl p)
      with st lt InProbe
      have s': "s' = s\<lparr>g_pc := (g_pc s)[idx := Panicked], crashed := Some p\<rparr>"
        by simp
      show ?thesis using r [of Panicked] InProbe unfolding s' steps_left_def by simp
    qed
  next
    case AtRelease
    with st lt have s': "s' = s\<lparr>sem := sem s - 1, g_pc := (g_pc s)[idx := AtDone]\<rparr>"
      by (auto split: if_splits)
    show ?thesis using r [of AtDone] AtRelease unfolding s' steps_left_def by simp
  next
    case AtDone
    with st lt
    have s': "s' = s\<lparr>done_ch := Suc (done_ch s), g_pc := (g_pc s)[idx := Finished]\<rparr>"
      by (auto split: if_splits)
    show ?thesis using r [of Finished] AtDone unfolding s' steps_left_def by simp
  next
    case Finished
    with st lt show ?thesis by simp
  next
    case Panicked
    with st lt show ?thesis by simp
  qed
qed

lemma exec_steps_left:
  "dispatch_inv C probe addresses s \<Longrightarrow> dispatch_exec C probe addresses sched s = Some s' \<Longrightarrow>
   steps_left (length addresses) s' + length sched = steps_left (length addresses) s"
proof (induction sched arbitrary: s)
  case Nil
  then show ?case by simp
next
  case (Cons t ts)
  from Cons.prems(2) obtain s1 where
    st: "dispatch_step C probe addresses t s = Some s1"
    and ex: "dispatch_exec C probe addresses ts s1 = Some s'"
    by (auto split: option.splits)
  from step_inv [OF Cons.prems(1) st] have inv1: "dispatch_inv C probe addresses s1" .
  from Cons.IH [OF inv1 ex] step_steps_left [OF Cons.prems(1) st]
  show ?case by simp
qed

lemma steps_left_init:
  "steps_left (length addresses) (dispatch_init zero addresses) = 6 * length addresses + 2"
  by (simp add: steps_left_def dispatch_init_def sum_list_replicate)

text \<open>A process that has neither returned nor crashed has a thread that can step.\<close>

lemma dispatch_progress:
  assumes inv: "dispatch_inv C probe addresses s"
    and nr: "main_pc s \<noteq> Returned"
    and nc: "crashed s = None"
    and C: "0 < C"
  shows "\<exists>t. dispatch_step C probe addresses t s \<noteq> None"
proof -
  have "\<exists>t. thread_step C probe addresses t s \<noteq> None"
  proof (cases "main_pc s")
    case (Spawning i)
    then have "thread_step C probe addresses MainT s \<noteq> None" by simp
    then show ?thesis by blast
  next
    case Returned
    with nr show ?thesis by simp
  next
    case (Receiving k)
    show ?thesis
    proof (cases "k < length addresses \<and> done_ch s = 0")
      case False
      with Receiving have "thread_step C probe addresses MainT s \<noteq> None" by auto
      then show ?thesis by blast
    next
      case True
      from inv have len: "length (g_pc s) = length addresses" by (simp add: dispatch_inv_def)
      from inv Receiving True
      have "length (filter (\<lambda>g. g = Finished) (g_pc s)) < length (g_pc s)"
        by (simp add: dispatch_inv_def)
      from exists_unfinished [OF this] obtain j where
        j: "j < length (g_pc s)" and nf: "g_pc s ! j \<noteq> Finished" by blast
      from inv Receiving have spawned: "\<forall>i<length addresses. g_pc s ! i \<noteq> Unspawned"
        by (simp add: dispatch_inv_def)
      note np = running_no_panicked [OF inv nc]
      from inv have semc: "sem s = length (filter holding (g_pc s))"
        by (simp add: dispatch_inv_def)
      show ?thesis
      proof (cases "\<exists>i<length (g_pc s). g_pc s ! i = InProbe \<or> g_pc s ! i = AtRelease \<or> g_pc s ! i = AtDone")
        case True
        then obtain i where i: "i < length (g_pc s)"
          and c: "g_pc s ! i = InProbe \<or> g_pc s ! i = AtRelease \<or> g_pc s ! i = AtDone" by blast
        from c have "thread_step C probe addresses (Go i) s \<noteq> None"
        proof (elim disjE)
          assume "g_pc s ! i = InProbe"
          then show ?thesis using i len by (simp split: sum.splits)
        next
          assume a: "g_pc s ! i = AtRelease"
          then have "holding (g_pc s ! i)" by (simp add: holding_def)
          from holding_pos [OF i this] semc have "0 < sem s" by simp
          then show ?thesis using a i len by simp
        next
          assume a: "g_pc s ! i = AtDone"
          then show ?thesis using i len \<open>k < length addresses \<and> done_ch s = 0\<close> by auto
        qed
        then show ?thesis by blast
      next
        case False
        with j nf spawned np len have w: "g_pc s ! j = AtAcquire"
          by (cases "g_pc s ! j") auto
        from False np len have "\<forall>x\<in>set (g_pc s). \<not> holding x"
          by (auto simp: in_set_conv_nth holding_def)
        then have "filter holding (g_pc s) = []" by (simp add: filter_empty_conv)
        with semc have "sem s = 0" by simp
        then have "thread_step C probe addresses (Go j) s \<noteq> None"
          using w j len C by auto
        then show ?thesis by blast
      qed
    qed
  qed
  with nc show ?thesis by (simp add: dispatch_step_def)
qed

lemma dispatch_returned:
  assumes inv: "dispatch_inv C probe addresses s"
    and r: "main_pc s = Returned"
  shows "(\<forall>j<length addresses. g_pc s ! j = Finished) \<and>
         length (results s) = length addresses \<and>
         (\<forall>j<length addresses. probe j (addresses ! j) = Inr (results s ! j))"
proof -
  from inv have len: "length (g_pc s) = length addresses"
    and rlen: "length (results s) = length addresses"
    by (simp_all add: dispatch_inv_def)
  from inv r have "done_ch s + length addresses = length (filter (\<lambda>g. g = Finished) (g_pc s))"
    by (simp add: dispatch_inv_def)
  moreover have "length (filter (\<lambda>g. g = Finished) (g_pc s)) \<le> length (g_pc s)" by simp
  ultimately have "length (filter (\<lambda>g. g = Finished) (g_pc s)) = length (g_pc s)"
    using len by simp
  from all_finished_if_count [OF this] len
  have fin: "\<forall>j<length addresses. g_pc s ! j = Finished" by simp
  from inv have w: "\<forall>j<length addresses. written (g_pc s ! j) \<longrightarrow>
               probe j (addresses ! j) = Inr (results s ! j)"
    by (simp add: dispatch_inv_def)
  with fin have "\<forall>j<length addresses. probe j (addresses ! j) = Inr (results s ! j)"
    by (simp add: written_def)
  with fin rlen show ?thesis by blast
qed


lemma dispatch_crashed_panicked:
  assumes inv: "dispatch_inv C probe addresses s" and "crashed s \<noteq> None"
  shows "\<exists>j<length addresses. \<exists>p. probe j (addresses ! j) = Inl p"
  using assms unfolding dispatch_inv_def by blast

lemma executing_le_sem: "executing s \<le> length (filter holding (g_pc s))"
proof -
  have "filter (\<lambda>g. g = InProbe) (g_pc s) = filter (\<lambda>g. g = InProbe) (filter holding (g_pc s))"
    by (auto simp: holding_def intro: filter_cong)
  then show ?thesis
    unfolding executing_def by (metis length_filter_le)
qed

text \<open>A run can always be extended until the process has returned or crashed.\<close>

lemma dispatch_can_end:
  assumes C: "0 < C"
  shows "dispatch_inv C probe addresses s \<Longrightarrow> steps_left (length addresses) s = n \<Longrightarrow>
         \<exists>sched s'. dispatch_exec C probe addresses sched s = Some s' \<and>
                    (main_pc s' = Returned \<or> crashed s' \<noteq> None)"
proof (induction n arbitrary: s)
  case 0
  then have "main_pc s = Returned"
    by (cases "main_pc s") (simp_all add: steps_left_def)
  then have "dispatch_exec C probe addresses [] s = Some s \<and> main_pc s = Returned" by simp
  then show ?case by blast
next
  case (Suc n)
  show ?case
  proof (cases "main_pc s = Returned \<or> crashed s \<noteq> None")
    case True
    then have "dispatch_exec C probe addresses [] s = Some s \<and>
               (main_pc s = Returned \<or> crashed s \<noteq> None)" by simp
    then show ?thesis by blast
  next
    case False
    then have nr: "main_pc s \<noteq> Returned" and nc: "crashed s = None" by auto
    from dispatch_progress [OF Suc.prems(1) nr nc C] obtain t s1 where
      st: "dispatch_step C probe addresses t s = Some s1" by auto
    from step_inv [OF Suc.prems(1) st] have inv1: "dispatch_inv C probe addresses s1" .
    from step_steps_left [OF Suc.prems(1) st] Suc.prems(2)
    have "steps_left (length addresses) s1 = n" by simp
    from Suc.IH [OF inv1 this] obtain sched s' where
      "dispatch_exec C probe addresses sched s1 = Some s'"
      and r: "main_pc s' = Returned \<or> crashed s' \<noteq> None" by blast
    with st have "dispatch_exec C probe addresses (t # sched) s = Some s'" by simp
    with r show ?thesis by blast
  qed
qed

lemma float64_of_nat_exact:
  assumes "n < 2 ^ 53"
  shows "float64 (of_nat n) = of_nat n"
proof (cases "n = 0")
  case True
  then show ?thesis by simp
next
  case False
  with assms have "0 < int n" "int n < 2 ^ 53" by auto
  from float64_exact [OF this, of 0] show ?thesis by simp
qed

lemma float64_one [simp]: "float64 1 = 1"
  using float64_of_nat_exact [of 1] by simp

lemma float64_pow2 [simp]: "float64 (2 ^ k) = 2 ^ k"
  using float64_exact [of 1 "int k"] by simp

lemma float64_le_pow2: "0 \<le> x \<Longrightarrow> x \<le> 2 ^ k \<Longrightarrow> float64 x \<le> 2 ^ k"
  using float64_mono [of x "2 ^ k"] by simp

lemma percentile_rank:
  "xs \<noteq> [] \<Longrightarrow>
   percentile xs p =
     (let idx = (if int (length xs) \<le> rank (length xs) p then int (length xs) - 1
                 else rank (length xs) p)
      in if idx < 0 then Inl IndexOutOfRange else Inr (xs ! nat idx))"
  by (simp add: percentile_def rank_def Let_def)

text \<open>The float the rank is truncated from.\<close>

lemma rank_value_bounds:
  assumes p: "0 \<le> p" "p \<le> 100" and n: "0 < n" "n \<le> 2 ^ 45"
  shows "0 \<le> fadd (fmul (fdiv (float64_of_int p) 100) (float64_of_int (int n - 1))) (1 / 2)"
    and "fadd (fmul (fdiv (float64_of_int p) 100) (float64_of_int (int n - 1))) (1 / 2) \<le> 2 ^ 47"
proof -
  let ?a = "float64_of_int p"
  let ?q = "fdiv ?a 100"
  let ?m = "float64_of_int (int n - 1)"
  let ?b = "fmul ?q ?m"
  have a0: "0 \<le> ?a" using p by (simp add: float64_of_int_def float64_nonneg)
  have a1: "?a \<le> 2 ^ 7"
    unfolding float64_of_int_def by (rule float64_le_pow2) (use p in auto)
  have q0: "0 \<le> ?q" using a0 by (simp add: fdiv_def float64_nonneg)
  have q1: "?q \<le> 2 ^ 1"
    unfolding fdiv_def by (rule float64_le_pow2) (use a0 a1 in auto)
  have m0: "0 \<le> ?m" using n by (simp add: float64_of_int_def float64_nonneg)
  have "(of_int (int n - 1) :: rat) \<le> of_int (2 ^ 45)"
    using n by (simp only: of_int_le_iff) simp
  then have "(of_int (int n - 1) :: rat) \<le> 2 ^ 45" by simp
  then have m1: "?m \<le> 2 ^ 45"
    unfolding float64_of_int_def using n by (intro float64_le_pow2) auto
  have b0: "0 \<le> ?b" using q0 m0 by (simp add: fmul_def float64_nonneg)
  have "?q * ?m \<le> 2 ^ 1 * 2 ^ 45" using q0 q1 m0 m1 by (intro mult_mono) auto
  then have "?q * ?m \<le> 2 ^ 46" by simp
  then have b1: "?b \<le> 2 ^ 46"
    unfolding fmul_def using q0 m0 by (intro float64_le_pow2) auto
  show "0 \<le> fadd ?b (1 / 2)" using b0 by (simp add: fadd_def float64_nonneg)
  have "?b + 1 / 2 \<le> 2 ^ 47" using b1 by simp
  then show "fadd ?b (1 / 2) \<le> 2 ^ 47"
    unfolding fadd_def using b0 by (intro float64_le_pow2) auto
qed

lemma int_of_float64_floor:
  "0 \<le> x \<Longrightarrow> x \<le> 2 ^ 47 \<Longrightarrow> int_of_float64 x = \<lfloor>x\<rfloor>"
proof -
  assume x: "0 \<le> x" "x \<le> 2 ^ 47"
  then have "0 \<le> \<lfloor>x\<rfloor>" by simp
  moreover from x have "\<lfloor>x\<rfloor> \<le> \<lfloor>(2 ^ 47 :: rat)\<rfloor>" by (intro floor_mono)
  then have "\<lfloor>x\<rfloor> \<le> 2 ^ 47" by simp
  ultimately show ?thesis using x by (simp add: int_of_float64_def Let_def)
qed

lemma rank_floor:
  assumes "0 \<le> p" "p \<le> 100" "0 < n" "n \<le> 2 ^ 45"
  shows "rank n p = \<lfloor>fadd (fmul (fdiv (float64_of_int p) 100) (float64_of_int (int n - 1))) (1 / 2)\<rfloor>"
  unfolding rank_def
  by (rule int_of_float64_floor) (rule rank_value_bounds [OF assms])+

lemma rank_nonneg:
  assumes "0 \<le> p" "p \<le> 100" "0 < n" "n \<le> 2 ^ 45"
  shows "0 \<le> rank n p"
  using rank_value_bounds(1) [OF assms] by (simp add: rank_floor [OF assms])

lemma rank_mono:
  assumes p: "0 \<le> p" "p \<le> q" "q \<le> 100" and n: "0 < n" "n \<le> 2 ^ 45"
  shows "rank n p \<le> rank n q"
proof -
  from p have p': "0 \<le> p" "p \<le> 100" and q': "0 \<le> q" "q \<le> 100" by auto
  have a: "float64_of_int p \<le> float64_of_int q"
    unfolding float64_of_int_def using p by (intro float64_mono) auto
  have a0: "0 \<le> float64_of_int p" using p by (simp add: float64_of_int_def float64_nonneg)
  have b: "fdiv (float64_of_int p) 100 \<le> fdiv (float64_of_int q) 100"
    unfolding fdiv_def using a a0 by (intro float64_mono) (auto simp: divide_right_mono)
  have b0: "0 \<le> fdiv (float64_of_int p) 100" using a0 by (simp add: fdiv_def float64_nonneg)
  have m0: "0 \<le> float64_of_int (int n - 1)"
    using n by (simp add: float64_of_int_def float64_nonneg)
  have c: "fmul (fdiv (float64_of_int p) 100) (float64_of_int (int n - 1))
           \<le> fmul (fdiv (float64_of_int q) 100) (float64_of_int (int n - 1))"
    unfolding fmul_def using b b0 m0 by (intro float64_mono mult_right_mono) auto
  have c0: "0 \<le> fmul (fdiv (float64_of_int p) 100) (float64_of_int (int n - 1))"
    using b0 m0 by (simp add: fmul_def float64_nonneg)
  have "fadd (fmul (fdiv (float64_of_int p) 100) (float64_of_int (int n - 1))) (1 / 2)
        \<le> fadd (fmul (fdiv (float64_of_int q) 100) (float64_of_int (int n - 1))) (1 / 2)"
    unfolding fadd_def using c c0 by (intro float64_mono) auto
  then show ?thesis
    unfolding rank_floor [OF p' n] rank_floor [OF q' n] by (rule floor_mono)
qed

lemma percentile_index:
  assumes p: "0 \<le> p" "p \<le> 100" and n: "xs \<noteq> []" "length xs \<le> 2 ^ 45"
  shows "percentile xs p = Inr (xs ! nat (min (rank (length xs) p) (int (length xs) - 1)))"
proof -
  from n have n': "0 < length xs" by simp
  from rank_nonneg [OF p n' n(2)] have r: "0 \<le> rank (length xs) p" .
  show ?thesis
    unfolding percentile_rank [OF n(1)] using r n' by (auto simp: Let_def min_def)
qed

lemma wrap64_id: "- (2 ^ 63) \<le> x \<Longrightarrow> x < 2 ^ 63 \<Longrightarrow> wrap64 x = x"
  by (simp add: wrap64_def)

lemma Milliseconds_bound: "\<bar>Milliseconds (time_Since ns)\<bar> \<le> 9223372036854"
proof -
  have "\<bar>time_Since ns\<bar> \<le> 2 ^ 63"
    by (simp add: time_Since_def minDuration_def maxDuration_def)
  then have "\<bar>time_Since ns\<bar> div 1000000 \<le> 2 ^ 63 div 1000000"
    by (rule zdiv_mono1) simp
  then have "\<bar>time_Since ns\<bar> div 1000000 \<le> 9223372036854" by simp
  moreover have "0 \<le> \<bar>time_Since ns\<bar> div 1000000" by simp
  ultimately show ?thesis
    by (simp add: Milliseconds_def abs_mult abs_sgn_eq)
qed

lemma sample_fold_Suc:
  "foldl (sample e c u) a [0..<Suc n] = sample e c u (foldl (sample e c u) a [0..<n]) n"
  by simp

lemma sample_fold_facts:
  "snd (foldl (sample e c u) ([], 0) [0..<n])
     = int (length (fst (foldl (sample e c u) ([], 0) [0..<n]))) \<and>
   length (fst (foldl (sample e c u) ([], 0) [0..<n])) \<le> n \<and>
   (\<forall>v\<in>set (fst (foldl (sample e c u) ([], 0) [0..<n])). \<bar>v\<bar> \<le> 9223372036854)"
proof (induction n)
  case 0
  then show ?case by simp
next
  case (Suc n)
  let ?r = "foldl (sample e c u) ([], 0) [0..<n]"
  note step = sample_fold_Suc [of e c u "([], 0)" n]
  show ?case
  proof (cases "get e c u n")
    case (Inl err)
    then have "sample e c u ?r n = ?r" by (simp add: sample_def)
    with Suc show ?thesis unfolding step by auto
  next
    case (Inr ns)
    then have "sample e c u ?r n = (fst ?r @ [Milliseconds (time_Since ns)], snd ?r + 1)"
      by (simp add: sample_def)
    with Suc Milliseconds_bound [of ns] show ?thesis unfolding step by auto
  qed
qed

lemma wrap64_range: "- (2 ^ 63) \<le> wrap64 x \<and> wrap64 x < 2 ^ 63"
proof -
  have "0 \<le> (x + 9223372036854775808) mod 18446744073709551616"
    "(x + 9223372036854775808) mod 18446744073709551616 < (18446744073709551616::int)"
    by simp_all
  then show ?thesis by (simp add: wrap64_def)
qed

lemma wrap64_add_left: "wrap64 (wrap64 x + v) = wrap64 (x + v)"
proof -
  define m :: int where "m = 2 ^ 64"
  define h :: int where "h = 2 ^ 63"
  have w: "wrap64 y = (y + h) mod m - h" for y
    by (simp add: wrap64_def m_def h_def)
  have a: "wrap64 x + v + h = (x + h) mod m + v" by (simp add: w)
  have c: "x + h + v = x + v + h" by simp
  have "wrap64 (wrap64 x + v) = (wrap64 x + v + h) mod m - h" by (rule w)
  also have "\<dots> = ((x + h) mod m + v) mod m - h" by (simp only: a)
  also have "\<dots> = (x + h + v) mod m - h" by (simp only: mod_add_left_eq)
  also have "\<dots> = (x + v + h) mod m - h" by (simp only: c)
  also have "\<dots> = wrap64 (x + v)" by (rule w [symmetric])
  finally show ?thesis .
qed

text \<open>The wrapping additions of \<open>avg\<close> yield the true sum reduced to \<open>int64\<close>.\<close>

lemma wrapped_sum:
  "foldl (\<lambda>sum v. wrap64 (sum + v)) (wrap64 a) vals = wrap64 (a + sum_list vals)"
proof (induction vals arbitrary: a)
  case Nil
  then show ?case by simp
next
  case (Cons v vals)
  have "foldl (\<lambda>sum v. wrap64 (sum + v)) (wrap64 a) (v # vals)
          = foldl (\<lambda>sum v. wrap64 (sum + v)) (wrap64 (a + v)) vals"
    by (simp add: wrap64_add_left)
  also have "\<dots> = wrap64 (a + v + sum_list vals)" by (rule Cons.IH)
  finally show ?case by (simp add: add.assoc)
qed

lemma sum_list_between:
  "\<forall>v\<in>set vals. lo \<le> v \<and> v \<le> hi \<Longrightarrow>
   int (length vals) * lo \<le> sum_list vals \<and> sum_list vals \<le> int (length vals) * (hi::int)"
  by (induction vals) (auto simp: distrib_right)

lemma tdiv_between:
  assumes n: "0 < n" and lo: "n * lo \<le> s" and hi: "s \<le> n * hi"
  shows "lo \<le> tdiv s n \<and> tdiv s n \<le> hi"
proof (cases "0 \<le> s")
  case True
  have c: "(n * lo) div n = lo" "(n * hi) div n = hi"
    using n by (simp_all only: nonzero_mult_div_cancel_left less_imp_neq [THEN not_sym] simp_thms)
  from zdiv_mono1 [OF lo n] have "lo \<le> s div n" unfolding c .
  moreover from zdiv_mono1 [OF hi n] have "s div n \<le> hi" unfolding c .
  moreover have "tdiv s n = s div n"
    using True n by (cases "s = 0") (simp_all add: tdiv_def)
  ultimately show ?thesis by simp
next
  case False
  have c: "(n * (- hi)) div n = - hi" "(n * (- lo)) div n = - lo"
    using n by (simp_all only: nonzero_mult_div_cancel_left less_imp_neq [THEN not_sym] simp_thms)
  from hi have "n * (- hi) \<le> - s" by simp
  from zdiv_mono1 [OF this n] have a: "- hi \<le> (- s) div n" unfolding c .
  from lo have "- s \<le> n * (- lo)" by simp
  from zdiv_mono1 [OF this n] have b: "(- s) div n \<le> - lo" unfolding c .
  have "tdiv s n = - ((- s) div n)"
    using False n by (simp add: tdiv_def)
  with a b show ?thesis by simp
qed

lemma avg_nonempty:
  assumes "vals \<noteq> []"
  shows "\<exists>a. avg vals = Inr a"
  using assms by (simp add: avg_def quo_def)

lemma tdiv_in_range:
  assumes n: "0 < n" and lo: "- (2 ^ 63) \<le> s" and hi: "s < 2 ^ 63"
  shows "wrap64 (tdiv s n) = tdiv s n"
proof -
  from n have n1: "1 \<le> n" by simp
  have "n * (- (2 ^ 63)) \<le> 1 * (- (2 ^ 63))"
    by (rule mult_right_mono_neg [OF n1]) simp
  with lo have a: "n * (- (2 ^ 63)) \<le> s" by simp
  have "1 * (2 ^ 63 - 1) \<le> n * (2 ^ 63 - 1)"
    by (rule mult_right_mono [OF n1]) simp
  with hi have b: "s \<le> n * (2 ^ 63 - 1)" by simp
  from tdiv_between [OF n a b] show ?thesis by (intro wrap64_id) auto
qed

lemma avg_wrapped:
  assumes ne: "vals \<noteq> []"
  shows "avg vals = Inr (tdiv (wrap64 (sum_list vals)) (int (length vals)))"
proof -
  let ?n = "int (length vals)"
  have "wrap64 0 = 0" by (simp add: wrap64_def)
  with wrapped_sum [of 0 vals]
  have s: "foldl (\<lambda>sum v. wrap64 (sum + v)) 0 vals = wrap64 (sum_list vals)" by simp
  from ne have npos: "0 < ?n" by simp
  from wrap64_range [of "sum_list vals"]
  have "wrap64 (tdiv (wrap64 (sum_list vals)) ?n) = tdiv (wrap64 (sum_list vals)) ?n"
    by (intro tdiv_in_range [OF npos]) auto
  then show ?thesis
    using npos by (simp add: avg_def quo_def s tdiv_def)
qed

lemma avg_mean:
  assumes ne: "vals \<noteq> []"
    and lo: "- (2 ^ 63) \<le> sum_list vals" and hi: "sum_list vals < 2 ^ 63"
  shows "avg vals = Inr (tdiv (sum_list vals) (int (length vals)))"
  using avg_wrapped [OF ne] wrap64_id [OF lo hi] by simp

lemma sorted_first_le: "sorted xs \<Longrightarrow> i < length xs \<Longrightarrow> xs ! 0 \<le> (xs ! i :: int)"
  by (simp add: sorted_nth_mono)

lemma sorted_le_last:
  "sorted xs \<Longrightarrow> i < length xs \<Longrightarrow> (xs ! i :: int) \<le> xs ! (length xs - 1)"
  by (rule sorted_nth_mono) auto

lemma tdiv_sorted_between:
  assumes s: "sorted xs" and ne: "xs \<noteq> []"
  shows "xs ! 0 \<le> tdiv (sum_list xs) (int (length xs)) \<and>
         tdiv (sum_list xs) (int (length xs)) \<le> xs ! (length xs - 1)"
proof -
  have "\<forall>v\<in>set xs. xs ! 0 \<le> v \<and> v \<le> xs ! (length xs - 1)"
    using sorted_first_le [OF s] sorted_le_last [OF s] by (auto simp: in_set_conv_nth)
  from sum_list_between [OF this] ne show ?thesis
    by (intro tdiv_between) auto
qed


lemma sort_eq_Nil_iff [simp]: "(sort xs = []) = (xs = [])"
  by (metis length_0_conv length_sort)

lemma sum_list_insort: "sum_list (insort x xs) = x + sum_list (xs :: int list)"
  by (induction xs) auto

lemma sum_list_sort: "sum_list (sort xs) = sum_list (xs :: int list)"
  by (induction xs) (auto simp: sum_list_insort)

lemma Run_unbuilt:
  "buildClient address = Inl err \<Longrightarrow>
   Run e address opts = Inr (new_Stats address (Samples_opt opts), [])"
  by (simp add: Run_def Let_def)

lemma measured_facts:
  "foldl (sample e c (defaultTestURL (TestURL opts))) ([], 0) [0..<nat (coerced_samples opts)]
     = (measured e c opts, int (length (measured e c opts)))"
  "length (measured e c opts) \<le> nat (coerced_samples opts)"
  "\<forall>v\<in>set (measured e c opts). \<bar>v\<bar> \<le> 9223372036854"
  using sample_fold_facts [of e c "defaultTestURL (TestURL opts)" "nat (coerced_samples opts)"]
  by (simp_all add: measured_def prod_eq_iff)

lemma Run_built:
  assumes bc: "buildClient address = Inr c"
    and cap: "8 * coerced_samples opts \<le> maxAlloc"
  shows "Run e address opts =
    (let lat = sort (measured e c opts);
         n = length lat;
         calls = replicate (nat (coerced_samples opts)) (Get c (defaultTestURL (TestURL opts)))
     in if n = 0
        then Inr ((new_Stats address (Samples_opt opts))\<lparr>Successful := 0, LossRate := 1\<rparr>, calls)
        else Inr (\<lparr>Address = address, Samples = Samples_opt opts, Successful = int n,
                   MinMS = lat ! 0, MaxMS = lat ! (n - 1), AvgMS = projr (avg lat),
                   P50MS = lat ! nat (min (rank n 50) (int n - 1)),
                   P95MS = lat ! nat (min (rank n 95) (int n - 1)),
                   LossRate = fdiv (float64_of_int (coerced_samples opts - int n))
                                   (float64_of_int (coerced_samples opts)),
                   SpeedBps = (if PayloadURL opts \<noteq> [] then measureSpeed e c (PayloadURL opts)
                               else 0)\<rparr>,
                  if PayloadURL opts \<noteq> [] then calls @ [Get c (PayloadURL opts)] else calls))"
proof (cases "measured e c opts = []")
  case True
  with bc cap show ?thesis
    unfolding Run_def coerced_samples_def [symmetric]
    by (simp add: Let_def measured_facts(1))
next
  case False
  let ?lat = "sort (measured e c opts)"
  from False have ne: "?lat \<noteq> []" by (metis length_0_conv length_sort)
  from cap have "coerced_samples opts \<le> 35184372088832" by (simp add: maxAlloc_def)
  then have "nat (coerced_samples opts) \<le> 35184372088832" by simp
  with measured_facts(2) [of e c opts] have "length (measured e c opts) \<le> 35184372088832"
    by (rule order_trans)
  then have len: "length ?lat \<le> 2 ^ 45" by simp
  from avg_nonempty [OF ne] obtain a where a: "avg ?lat = Inr a" by blast
  have p50: "percentile ?lat 50 = Inr (?lat ! nat (min (rank (length ?lat) 50) (int (length ?lat) - 1)))"
    by (rule percentile_index [OF _ _ ne len]) simp_all
  have p95: "percentile ?lat 95 = Inr (?lat ! nat (min (rank (length ?lat) 95) (int (length ?lat) - 1)))"
    by (rule percentile_index [OF _ _ ne len]) simp_all
  from bc cap False ne show ?thesis
    unfolding Run_def coerced_samples_def [symmetric]
    by (simp add: Let_def measured_facts(1) a p50 p95 new_Stats_def)
qed

lemma dispatch_exec_append:
  "dispatch_exec C probe addresses (xs @ ys) s =
     (case dispatch_exec C probe addresses xs s of
        None \<Rightarrow> None
      | Some s' \<Rightarrow> dispatch_exec C probe addresses ys s')"
  by (induction xs arbitrary: s) (auto split: option.splits)

lemma limit_pos: "0 < d \<Longrightarrow> 0 < limit d c"
  by (simp add: limit_def)

lemma dispatch_run_facts:
  assumes C: "0 < C"
    and ex: "dispatch_exec C probe addresses schedule (dispatch_init zero addresses) = Some s"
  shows "executing s \<le> C"
    and "length schedule \<le> 6 * length addresses + 2"
    and "main_pc s = Returned \<longrightarrow> (\<forall>j<length addresses. g_pc s ! j = Finished)"
    and "main_pc s = Returned \<longrightarrow> length (results s) = length addresses \<and>
           (\<forall>j<length addresses. probe j (addresses ! j) = Inr (results s ! j))"
    and "\<exists>more s'. dispatch_exec C probe addresses (schedule @ more) (dispatch_init zero addresses)
             = Some s' \<and> (main_pc s' = Returned \<or> crashed s' \<noteq> None)"
    and "(\<forall>j<length addresses. \<forall>p. probe j (addresses ! j) \<noteq> Inl p) \<longrightarrow>
           crashed s = None \<and>
           (\<exists>more s'. dispatch_exec C probe addresses (schedule @ more)
                         (dispatch_init zero addresses) = Some s' \<and> main_pc s' = Returned)"
    and "crashed s \<noteq> None \<longrightarrow> (\<exists>j<length addresses. \<exists>p. probe j (addresses ! j) = Inl p)"
proof -
  have inv0: "dispatch_inv C probe addresses (dispatch_init zero addresses)"
    by (rule dispatch_inv_init [OF C])
  from exec_inv [OF inv0 ex] have inv: "dispatch_inv C probe addresses s" .
  from inv have "sem s = length (filter holding (g_pc s))" "sem s \<le> C"
    by (simp_all add: dispatch_inv_def)
  with executing_le_sem [of s] show "executing s \<le> C" by simp
  from exec_steps_left [OF inv0 ex] steps_left_init [of addresses zero]
  show "length schedule \<le> 6 * length addresses + 2" by simp
  show "main_pc s = Returned \<longrightarrow> (\<forall>j<length addresses. g_pc s ! j = Finished)"
    using dispatch_returned [OF inv] by blast
  show "main_pc s = Returned \<longrightarrow> length (results s) = length addresses \<and>
           (\<forall>j<length addresses. probe j (addresses ! j) = Inr (results s ! j))"
    using dispatch_returned [OF inv] by blast
  from dispatch_can_end [OF C inv refl] obtain more s' where
    m: "dispatch_exec C probe addresses more s = Some s'"
    and r: "main_pc s' = Returned \<or> crashed s' \<noteq> None" by blast
  from m ex have all: "dispatch_exec C probe addresses (schedule @ more)
      (dispatch_init zero addresses) = Some s'"
    by (simp add: dispatch_exec_append)
  with r show "\<exists>more s'. dispatch_exec C probe addresses (schedule @ more)
      (dispatch_init zero addresses) = Some s' \<and> (main_pc s' = Returned \<or> crashed s' \<noteq> None)"
    by blast
  show cr: "crashed s \<noteq> None \<longrightarrow> (\<exists>j<length addresses. \<exists>p. probe j (addresses ! j) = Inl p)"
    using dispatch_crashed_panicked [OF inv] by blast
  show "(\<forall>j<length addresses. \<forall>p. probe j (addresses ! j) \<noteq> Inl p) \<longrightarrow>
           crashed s = None \<and>
           (\<exists>more s'. dispatch_exec C probe addresses (schedule @ more)
                         (dispatch_init zero addresses) = Some s' \<and> main_pc s' = Returned)"
  proof
    assume np: "\<forall>j<length addresses. \<forall>p. probe j (addresses ! j) \<noteq> Inl p"
    from exec_inv [OF inv0 all] have "dispatch_inv C probe addresses s'" .
    from dispatch_crashed_panicked [OF this] np have "crashed s' = None" by blast
    with r have "main_pc s' = Returned" by simp
    with all cr np show "crashed s = None \<and>
           (\<exists>more s'. dispatch_exec C probe addresses (schedule @ more)
                         (dispatch_init zero addresses) = Some s' \<and> main_pc s' = Returned)"
      by blast
  qed
qed


lemma CheckMany_results:
  assumes ex: "CheckMany e addresses opts schedule = Some s" and r: "main_pc s = Returned"
  shows "results s = map (\<lambda>j. fst (Check (e j) (addresses ! j) opts)) [0..<length addresses]"
proof -
  have C: "0 < limit 10 (Concurrency opts)" by (simp add: limit_def)
  from dispatch_run_facts(4) [OF C ex [unfolded CheckMany_def]] r
  have l: "length (results s) = length addresses"
    and v: "\<forall>j<length addresses. fst (Check (e j) (addresses ! j) opts) = results s ! j"
    by auto
  show ?thesis by (rule nth_equalityI) (use l v in auto)
qed












text \<open>
  C10. When the requested sample count is not positive, the record \<open>Run\<close> returns
  keeps that original value in \<open>Samples\<close>, while the sampling loop issues five requests
  and the loss rate is computed over five: the stored count and the number of samples
  taken disagree.
\<close>

theorem Run_samples_field_not_coerced:
  assumes "Samples_opt opts \<le> 0" and "Run e address opts = Inr (st, calls)"
  shows "Samples st = Samples_opt opts \<and> Samples st \<noteq> 5 \<and>
         (\<forall>c. buildClient address = Inr c \<longrightarrow>
            calls = replicate 5 (Get c (defaultTestURL (TestURL opts)))
                      @ (if Successful st \<noteq> 0 \<and> PayloadURL opts \<noteq> []
                         then [Get c (PayloadURL opts)] else []) \<and>
            Successful st = int (length (measured e c opts)) \<and>
            LossRate st = (if Successful st = 0 then 1
                           else fdiv (float64_of_int (5 - Successful st)) (float64_of_int 5)))"
proof (cases "buildClient address")
  case (Inl err)
  with assms Run_unbuilt [OF Inl, of e opts] show ?thesis
    by (auto simp: new_Stats_def)
next
  case (Inr c)
  from assms(1) have cs: "coerced_samples opts = 5" by (simp add: coerced_samples_def)
  then have cap: "8 * coerced_samples opts \<le> maxAlloc" by (simp add: maxAlloc_def)
  have five: "replicate (nat 5) x = replicate 5 x" for x :: net_call by simp
  from Run_built [OF Inr cap, of e] assms show ?thesis
    unfolding cs five
    by (auto simp: Let_def new_Stats_def Inr split: if_splits)
qed

theorem Run_samples_field_not_coerced_witness:
  "Samples_opt bench_opts_example \<le> 0 \<and>
   (\<exists>st calls. Run env_example ''http://1.2.3.4:80'' bench_opts_example = Inr (st, calls) \<and>
      Samples st = 0 \<and> Successful st = 3 \<and> length calls = 6 \<and>
      LossRate st = fdiv (float64_of_int (5 - 3)) (float64_of_int 5))"
proof -
  have h: "Samples_opt bench_opts_example \<le> 0" by (simp add: bench_opts_example_def)
  have "case Run env_example ''http://1.2.3.4:80'' bench_opts_example of
          Inl p \<Rightarrow> False | Inr (st, calls) \<Rightarrow> Successful st = 3 \<and> length calls = 6"
    by code_simp
  then obtain st calls where
    r: "Run env_example ''http://1.2.3.4:80'' bench_opts_example = Inr (st, calls)"
    and s: "Successful st = 3" "length calls = 6"
    by (auto split: sum.splits)
  have bc: "buildClient ''http://1.2.3.4:80'' = Inr (HTTPProxyClient ''http://1.2.3.4:80'')"
    by code_simp
  from Run_samples_field_not_coerced [OF h r] bc s h
  have "Samples st = 0 \<and> LossRate st = fdiv (float64_of_int (5 - 3)) (float64_of_int 5)"
    by (auto simp: bench_opts_example_def)
  with h r s show ?thesis by blast
qed

text \<open>
  C5. In every record \<open>Run\<close> returns with a positive \<open>Successful\<close> count,
  \<open>MinMS \<le> P50MS \<le> P95MS \<le> MaxMS\<close>, and \<open>AvgMS\<close> is the \<open>int64\<close> sum of the
  successful samples divided by their number, truncated toward zero. Whenever the sum of
  the millisecond latencies that the network delivered fits \<open>int64\<close>, \<open>AvgMS\<close> is the
  truncated mean of the successful samples and lies between \<open>MinMS\<close> and \<open>MaxMS\<close>.
  With \<open>Successful = 0\<close> the five latency fields are zero.
\<close>

theorem Run_latency_fields_ordered:
  assumes "Run e address opts = Inr (st, calls)"
  shows "(0 < Successful st \<longrightarrow>
            MinMS st \<le> P50MS st \<and> P50MS st \<le> P95MS st \<and> P95MS st \<le> MaxMS st \<and>
            (\<exists>c. buildClient address = Inr c \<and>
               AvgMS st = tdiv (wrap64 (sum_list (measured e c opts))) (Successful st) \<and>
               (- (2 ^ 63) \<le> sum_list (measured e c opts) \<and>
                sum_list (measured e c opts) < 2 ^ 63 \<longrightarrow>
                  MinMS st \<le> AvgMS st \<and> AvgMS st \<le> MaxMS st \<and>
                  AvgMS st = tdiv (sum_list (measured e c opts)) (Successful st)))) \<and>
         (Successful st = 0 \<longrightarrow>
            MinMS st = 0 \<and> MaxMS st = 0 \<and> AvgMS st = 0 \<and> P50MS st = 0 \<and> P95MS st = 0)"
proof (cases "buildClient address")
  case (Inl err)
  with assms Run_unbuilt [OF Inl, of e opts] show ?thesis
    by (auto simp: new_Stats_def)
next
  case (Inr c)
  show ?thesis
  proof (cases "8 * coerced_samples opts \<le> maxAlloc")
    case False
    with assms Inr show ?thesis
      by (simp add: Run_def Let_def coerced_samples_def)
  next
    case cap: True
    let ?lat = "sort (measured e c opts)"
    let ?n = "length ?lat"
    note R = Run_built [OF Inr cap, of e]
    show ?thesis
    proof (cases "?n = 0")
      case True
      with R assms show ?thesis by (auto simp: Let_def new_Stats_def)
    next
      case False
      then have ne: "?lat \<noteq> []" and npos: "0 < ?n" by auto
      from cap have "coerced_samples opts \<le> 35184372088832" by (simp add: maxAlloc_def)
      then have "nat (coerced_samples opts) \<le> 35184372088832" by simp
      with measured_facts(2) [of e c opts] have "length (measured e c opts) \<le> 35184372088832"
        by (rule order_trans)
      then have len: "?n \<le> 2 ^ 45" by simp
      have srt: "sorted ?lat" by simp
      have r50: "0 \<le> rank ?n 50" by (rule rank_nonneg [OF _ _ npos len]) simp_all
      have r95: "0 \<le> rank ?n 95" by (rule rank_nonneg [OF _ _ npos len]) simp_all
      have rm: "rank ?n 50 \<le> rank ?n 95" by (rule rank_mono [OF _ _ _ npos len]) simp_all
      let ?i50 = "nat (min (rank ?n 50) (int ?n - 1))"
      let ?i95 = "nat (min (rank ?n 95) (int ?n - 1))"
      from r50 r95 rm have i1: "?i50 \<le> ?i95" by auto
      have "min (rank ?n 95) (int ?n - 1) < int ?n" by simp
      with r95 npos have i2: "?i95 < ?n" by linarith
      note idx = i1 i2
      from R assms False have st:
        "Successful st = int ?n" "MinMS st = ?lat ! 0" "MaxMS st = ?lat ! (?n - 1)"
        "P50MS st = ?lat ! ?i50" "P95MS st = ?lat ! ?i95" "AvgMS st = projr (avg ?lat)"
        by (auto simp: Let_def)
      have o1: "MinMS st \<le> P50MS st"
        unfolding st by (rule sorted_nth_mono [OF srt]) (use idx in auto)
      have o2: "P50MS st \<le> P95MS st"
        unfolding st by (rule sorted_nth_mono [OF srt]) (use idx in auto)
      have o3: "P95MS st \<le> MaxMS st"
        unfolding st by (rule sorted_nth_mono [OF srt]) (use idx npos in auto)
      have sm: "sum_list ?lat = sum_list (measured e c opts)"
        by (rule sum_list_sort)
      have aw: "AvgMS st = tdiv (wrap64 (sum_list (measured e c opts))) (Successful st)"
        using avg_wrapped [OF ne] st sm by simp
      have av: "MinMS st \<le> AvgMS st \<and> AvgMS st \<le> MaxMS st \<and>
                AvgMS st = tdiv (sum_list (measured e c opts)) (Successful st)"
        if fits: "- (2 ^ 63) \<le> sum_list (measured e c opts) \<and>
                  sum_list (measured e c opts) < 2 ^ 63"
      proof -
        from fits sm have lo: "- (2 ^ 63) \<le> sum_list ?lat" and hi: "sum_list ?lat < 2 ^ 63"
          by simp_all
        from avg_mean [OF ne lo hi] have a: "avg ?lat = Inr (tdiv (sum_list ?lat) (int ?n))" .
        with sm st have e: "AvgMS st = tdiv (sum_list (measured e c opts)) (Successful st)"
          by simp
        from tdiv_sorted_between [OF srt ne] a st show ?thesis
          using e by simp
      qed
      from st npos have pos: "0 < Successful st" by simp
      show ?thesis using o1 o2 o3 aw av pos Inr by auto
    qed
  qed
qed

theorem Run_latency_fields_ordered_witness:
  "(\<exists>st calls c. Run env_example ''http://1.2.3.4:80'' bench_opts_example = Inr (st, calls) \<and>
      0 < Successful st \<and> buildClient ''http://1.2.3.4:80'' = Inr c \<and>
      sum_list (measured env_example c bench_opts_example) = 36 \<and>
      MinMS st = 10 \<and> P50MS st = 12 \<and> P95MS st = 14 \<and> MaxMS st = 14 \<and> AvgMS st = 12 \<and>
      MinMS st \<le> P50MS st \<and> P50MS st \<le> P95MS st \<and> P95MS st \<le> MaxMS st \<and>
      MinMS st \<le> AvgMS st \<and> AvgMS st \<le> MaxMS st \<and>
      AvgMS st = tdiv (sum_list (measured env_example c bench_opts_example)) (Successful st)) \<and>
   (\<exists>st calls. Run env_example '':'' bench_opts_example = Inr (st, calls) \<and>
      Successful st = 0 \<and>
      MinMS st = 0 \<and> MaxMS st = 0 \<and> AvgMS st = 0 \<and> P50MS st = 0 \<and> P95MS st = 0)"
proof -
  have "case Run env_example ''http://1.2.3.4:80'' bench_opts_example of
          Inl p \<Rightarrow> False
        | Inr (st, calls) \<Rightarrow>
            Successful st = 3 \<and> MinMS st = 10 \<and> P50MS st = 12 \<and> P95MS st = 14 \<and>
            MaxMS st = 14 \<and> AvgMS st = 12"
    by code_simp
  then obtain st calls where
    r: "Run env_example ''http://1.2.3.4:80'' bench_opts_example = Inr (st, calls)"
    and s: "Successful st = 3" "MinMS st = 10" "P50MS st = 12" "P95MS st = 14"
      "MaxMS st = 14" "AvgMS st = 12"
    by (auto split: sum.splits)
  have m: "case buildClient ''http://1.2.3.4:80'' of
          Inl err \<Rightarrow> False
        | Inr c \<Rightarrow> sum_list (measured env_example c bench_opts_example) = 36"
    by code_simp
  have "case Run env_example '':'' bench_opts_example of
          Inl p \<Rightarrow> False | Inr (st, calls) \<Rightarrow> Successful st = 0"
    by code_simp
  then obtain st0 calls0 where
    r0: "Run env_example '':'' bench_opts_example = Inr (st0, calls0)"
    and s0: "Successful st0 = 0"
    by (auto split: sum.splits)
  from Run_latency_fields_ordered [OF r] s
  obtain c where c: "buildClient ''http://1.2.3.4:80'' = Inr c"
    and imp: "- (2 ^ 63) \<le> sum_list (measured env_example c bench_opts_example) \<and>
              sum_list (measured env_example c bench_opts_example) < 2 ^ 63 \<longrightarrow>
                MinMS st \<le> AvgMS st \<and> AvgMS st \<le> MaxMS st \<and>
                AvgMS st = tdiv (sum_list (measured env_example c bench_opts_example))
                             (Successful st)"
    and ord: "MinMS st \<le> P50MS st \<and> P50MS st \<le> P95MS st \<and> P95MS st \<le> MaxMS st"
    by auto
  from m c have sum: "sum_list (measured env_example c bench_opts_example) = 36" by simp
  with imp have A: "MinMS st \<le> AvgMS st \<and> AvgMS st \<le> MaxMS st \<and>
                AvgMS st = tdiv (sum_list (measured env_example c bench_opts_example))
                             (Successful st)"
    by simp
  from Run_latency_fields_ordered [OF r0] s0
  have B: "MinMS st0 = 0 \<and> MaxMS st0 = 0 \<and> AvgMS st0 = 0 \<and> P50MS st0 = 0 \<and> P95MS st0 = 0"
    by simp
  from r s c sum ord A r0 s0 B show ?thesis by auto
qed


text \<open>
  C2 (the code departs from the claim). An address that does not parse as a URL makes
  \<open>Run\<close> return before any sample is attempted: the record has \<open>Successful = 0\<close> and
  the loss rate is still the zero it was initialised with, not 1.
\<close>

theorem Run_unparsable_address_loss_rate:
  "buildClient '':'' = Inl (Wrap ''parse proxy URL: '' (UrlError MissingProtocolScheme)) \<and>
   Run env_example '':'' (bench_opts_example\<lparr>Samples_opt := 5\<rparr>) = Inr (new_Stats '':'' 5, []) \<and>
   Successful (new_Stats '':'' 5) = 0 \<and> Samples (new_Stats '':'' 5) = 5 \<and>
   LossRate (new_Stats '':'' 5) = 0"
  by code_simp

text \<open>
  C9, as stated, fails: a payload download whose body read ends with an error after 1000
  bytes and one second is a failed throughput sample, yet the throughput is 1000.
\<close>

theorem Run_throughput_read_error_counterexample:
  "PayloadURL bench_opts_example \<noteq> [] \<and>
   map_sum id read_error
     (download env_example (HTTPProxyClient ''http://1.2.3.4:80'') (PayloadURL bench_opts_example))
     = Inr (Some ''unexpected EOF'') \<and>
   map_sum id (SpeedBps \<circ> fst) (Run env_example ''http://1.2.3.4:80'' bench_opts_example)
     = Inr 1000"
  by code_simp

text \<open>
  C9 amended. The throughput step changes no other field: the record is the one the same
  run computes without a payload URL, with only \<open>SpeedBps\<close> set. \<open>SpeedBps\<close> is 0 when
  no payload URL is configured and when the payload request itself fails. When the
  request succeeds (and a latency sample succeeded, so that the step is taken) it is the
  bytes received divided by the elapsed seconds, whether or not reading the body ended
  with an error, and 0 when no time elapsed.
\<close>

theorem Run_throughput_frame:
  assumes "Run e address opts = Inr (st, calls)"
  shows "(\<exists>calls0. Run e address (opts\<lparr>PayloadURL := []\<rparr>) = Inr (st\<lparr>SpeedBps := 0\<rparr>, calls0)) \<and>
         (PayloadURL opts = [] \<longrightarrow> SpeedBps st = 0) \<and>
         (\<forall>c err. buildClient address = Inr c \<and> download e c (PayloadURL opts) = Inl err
             \<longrightarrow> SpeedBps st = 0) \<and>
         (\<forall>c b. buildClient address = Inr c \<and> download e c (PayloadURL opts) = Inr b \<and>
                 PayloadURL opts \<noteq> [] \<and> 0 < Successful st
             \<longrightarrow> SpeedBps st =
                   (if Seconds (time_Since (read_ns b)) = 0 then 0
                    else int_of_float64 (fdiv (float64_of_int (bytes_read b))
                                              (Seconds (time_Since (read_ns b))))))"
proof (cases "buildClient address")
  case (Inl err)
  with assms Run_unbuilt [OF Inl, of e opts] Run_unbuilt [OF Inl, of e "opts\<lparr>PayloadURL := []\<rparr>"]
  show ?thesis
    by (auto simp: new_Stats_def)
next
  case (Inr c)
  show ?thesis
  proof (cases "8 * coerced_samples opts \<le> maxAlloc")
    case False
    with assms Inr show ?thesis
      by (simp add: Run_def Let_def coerced_samples_def)
  next
    case cap: True
    have cs: "coerced_samples (opts\<lparr>PayloadURL := []\<rparr>) = coerced_samples opts"
      by (simp add: coerced_samples_def)
    have ms: "measured e c (opts\<lparr>PayloadURL := []\<rparr>) = measured e c opts"
      by (simp add: measured_def cs)
    from cap cs have cap0: "8 * coerced_samples (opts\<lparr>PayloadURL := []\<rparr>) \<le> maxAlloc" by simp
    note R = Run_built [OF Inr cap, of e]
    note R0 = Run_built [OF Inr cap0, of e, unfolded cs ms]
    from R assms have "Run e address (opts\<lparr>PayloadURL := []\<rparr>) = Inr (st\<lparr>SpeedBps := 0\<rparr>,
        replicate (nat (coerced_samples opts)) (Get c (defaultTestURL (TestURL opts))))"
      unfolding R0 by (auto simp: Let_def new_Stats_def split: if_splits)
    moreover from R assms have "PayloadURL opts = [] \<longrightarrow> SpeedBps st = 0"
      by (auto simp: Let_def new_Stats_def split: if_splits)
    moreover from R assms have "\<forall>err. download e c (PayloadURL opts) = Inl err \<longrightarrow> SpeedBps st = 0"
      by (auto simp: Let_def new_Stats_def measureSpeed_def split: if_splits)
    moreover from R assms have "\<forall>b. download e c (PayloadURL opts) = Inr b \<and>
                 PayloadURL opts \<noteq> [] \<and> 0 < Successful st
             \<longrightarrow> SpeedBps st =
                   (if Seconds (time_Since (read_ns b)) = 0 then 0
                    else int_of_float64 (fdiv (float64_of_int (bytes_read b))
                                              (Seconds (time_Since (read_ns b)))))"
      by (auto simp: Let_def new_Stats_def measureSpeed_def split: if_splits)
    ultimately show ?thesis using Inr by auto
  qed
qed

theorem Run_throughput_frame_witness:
  "(\<exists>st calls calls0.
      Run env_example ''http://1.2.3.4:80'' bench_opts_example = Inr (st, calls) \<and>
      Run env_example ''http://1.2.3.4:80'' (bench_opts_example\<lparr>PayloadURL := []\<rparr>)
        = Inr (st\<lparr>SpeedBps := 0\<rparr>, calls0) \<and>
      0 < Successful st \<and> SpeedBps st = 1000) \<and>
   (\<exists>st calls.
      Run (env_example\<lparr>download := (\<lambda>c url. Inl ''timeout'')\<rparr>) ''http://1.2.3.4:80''
        bench_opts_example = Inr (st, calls) \<and>
      SpeedBps st = 0) \<and>
   (\<exists>st calls.
      Run env_example ''http://1.2.3.4:80'' (bench_opts_example\<lparr>PayloadURL := []\<rparr>)
        = Inr (st, calls) \<and>
      SpeedBps st = 0)"
proof -
  have bc: "buildClient ''http://1.2.3.4:80'' = Inr (HTTPProxyClient ''http://1.2.3.4:80'')"
    by code_simp
  have "case Run env_example ''http://1.2.3.4:80'' bench_opts_example of
          Inl p \<Rightarrow> False | Inr (st, calls) \<Rightarrow> Successful st = 3 \<and> SpeedBps st = 1000"
    by code_simp
  then obtain st calls where
    r: "Run env_example ''http://1.2.3.4:80'' bench_opts_example = Inr (st, calls)"
    and s: "Successful st = 3" "SpeedBps st = 1000"
    by (auto split: sum.splits)
  from Run_throughput_frame [OF r] obtain calls0 where
    f: "Run env_example ''http://1.2.3.4:80'' (bench_opts_example\<lparr>PayloadURL := []\<rparr>)
          = Inr (st\<lparr>SpeedBps := 0\<rparr>, calls0)"
    by blast
  have A: "\<exists>st calls calls0.
      Run env_example ''http://1.2.3.4:80'' bench_opts_example = Inr (st, calls) \<and>
      Run env_example ''http://1.2.3.4:80'' (bench_opts_example\<lparr>PayloadURL := []\<rparr>)
        = Inr (st\<lparr>SpeedBps := 0\<rparr>, calls0) \<and>
      0 < Successful st \<and> SpeedBps st = 1000"
    using r f s by auto
  let ?e = "env_example\<lparr>download := (\<lambda>c url. Inl ''timeout'')\<rparr>"
  have "case Run ?e ''http://1.2.3.4:80'' bench_opts_example of
          Inl p \<Rightarrow> False | Inr (st, calls) \<Rightarrow> True"
    by code_simp
  then obtain st1 calls1 where
    r1: "Run ?e ''http://1.2.3.4:80'' bench_opts_example = Inr (st1, calls1)"
    by (auto split: sum.splits)
  have "download ?e (HTTPProxyClient ''http://1.2.3.4:80'') (PayloadURL bench_opts_example)
          = Inl ''timeout''"
    by simp
  with Run_throughput_frame [OF r1] bc have "SpeedBps st1 = 0" by blast
  with r1 have B: "\<exists>st calls. Run ?e ''http://1.2.3.4:80'' bench_opts_example = Inr (st, calls) \<and>
      SpeedBps st = 0"
    by blast
  from Run_throughput_frame [OF f] have "SpeedBps (st\<lparr>SpeedBps := 0\<rparr>) = 0" by simp
  with f have C: "\<exists>st calls.
      Run env_example ''http://1.2.3.4:80'' (bench_opts_example\<lparr>PayloadURL := []\<rparr>)
        = Inr (st, calls) \<and> SpeedBps st = 0"
    by blast
  from A B C show ?thesis by blast
qed

lemma string_prefix_neq: "a \<noteq> b \<Longrightarrow> a # xs \<noteq> b # ys"
  by simp

text \<open>
  C6. A SOCKS5 probe that reaches its network phases (the address parses, and
  \<open>proxy.FromURL\<close> accepts its scheme): when the phase-1 TCP connect fails, the outcome is
  dead, with zero latency and the dial error; when phase 1 succeeds and the phase-2 GET
  fails, the outcome is dead but carries the phase-1 latency (positive whenever the
  measured connect time is) and a "forward check" message, which no dial-error message
  equals; when phase 2 succeeds the outcome is alive with the phase-2 latency.
\<close>

theorem CheckSOCKS5_phases:
  assumes "url_Parse address = Inr u"
    and "host = (case SplitHostPort (Host u) of Inl err \<Rightarrow> Host u @ '':1080'' | Inr hp \<Rightarrow> Host u)"
    and "testURL = defaultTestURL (TestURL opts)"
  shows "(\<forall>err. dial e host (Timeout opts) = Inl err \<longrightarrow>
            CheckSOCKS5 e address opts =
              (\<lparr>Address = address, Protocol = ProtocolSOCKS5, Alive = False, Latency = 0,
                Error = ''tcp probe: tcp dial: '' @ err\<rparr>, [Dial host])) \<and>
         (\<forall>ns err. dial e host (Timeout opts) = Inr ns \<and> proxy_FromURL u = Inr () \<and>
                    get e (SOCKS5Client address) testURL 0 = Inl err \<longrightarrow>
            CheckSOCKS5 e address opts =
              (\<lparr>Address = address, Protocol = ProtocolSOCKS5, Alive = False,
                Latency = time_Since ns, Error = ''forward check: '' @ err\<rparr>,
               [Dial host, Get (SOCKS5Client address) testURL]) \<and>
            (0 < ns \<longrightarrow> 0 < Latency (fst (CheckSOCKS5 e address opts))) \<and>
            (\<forall>err'. Error (fst (CheckSOCKS5 e address opts)) \<noteq> ''tcp probe: tcp dial: '' @ err')) \<and>
         (\<forall>ns ns'. dial e host (Timeout opts) = Inr ns \<and> proxy_FromURL u = Inr () \<and>
                    get e (SOCKS5Client address) testURL 0 = Inr ns' \<longrightarrow>
            CheckSOCKS5 e address opts =
              (\<lparr>Address = address, Protocol = ProtocolSOCKS5, Alive = True,
                Latency = time_Since ns', Error = []\<rparr>,
               [Dial host, Get (SOCKS5Client address) testURL]))"
proof (intro conjI allI impI)
  fix err
  assume "dial e host (Timeout opts) = Inl err"
  with assms show "CheckSOCKS5 e address opts =
              (\<lparr>Address = address, Protocol = ProtocolSOCKS5, Alive = False, Latency = 0,
                Error = ''tcp probe: tcp dial: '' @ err\<rparr>, [Dial host])"
    by (simp add: CheckSOCKS5_def Let_def tcpProbe_def new_Result_def)
next
  fix ns err
  assume a: "dial e host (Timeout opts) = Inr ns \<and> proxy_FromURL u = Inr () \<and>
                    get e (SOCKS5Client address) testURL 0 = Inl err"
  with assms show r: "CheckSOCKS5 e address opts =
              (\<lparr>Address = address, Protocol = ProtocolSOCKS5, Alive = False,
                Latency = time_Since ns, Error = ''forward check: '' @ err\<rparr>,
               [Dial host, Get (SOCKS5Client address) testURL])"
    by (simp add: CheckSOCKS5_def Let_def tcpProbe_def new_Result_def)
  show "0 < Latency (fst (CheckSOCKS5 e address opts))" if "0 < ns"
    using that by (simp add: r time_Since_def minDuration_def maxDuration_def)
  show "Error (fst (CheckSOCKS5 e address opts)) \<noteq> ''tcp probe: tcp dial: '' @ err'" for err'
    by (simp add: r)
next
  fix ns ns'
  assume "dial e host (Timeout opts) = Inr ns \<and> proxy_FromURL u = Inr () \<and>
                    get e (SOCKS5Client address) testURL 0 = Inr ns'"
  with assms show "CheckSOCKS5 e address opts =
              (\<lparr>Address = address, Protocol = ProtocolSOCKS5, Alive = True,
                Latency = time_Since ns', Error = []\<rparr>,
               [Dial host, Get (SOCKS5Client address) testURL])"
    by (simp add: CheckSOCKS5_def Let_def tcpProbe_def new_Result_def)
qed


theorem CheckSOCKS5_phases_witness:
  "CheckSOCKS5 env_example ''socks5://1.2.3.4'' opts_example =
     (\<lparr>Address = ''socks5://1.2.3.4'', Protocol = ProtocolSOCKS5, Alive = False, Latency = 0,
       Error = ''tcp probe: tcp dial: connection refused''\<rparr>, [Dial ''1.2.3.4:1080'']) \<and>
   CheckSOCKS5 env_no_forward ''socks5://10.0.0.1:8389'' opts_example =
     (\<lparr>Address = ''socks5://10.0.0.1:8389'', Protocol = ProtocolSOCKS5, Alive = False,
       Latency = 1000, Error = ''forward check: EOF''\<rparr>,
      [Dial ''10.0.0.1:8389'',
       Get (SOCKS5Client ''socks5://10.0.0.1:8389'') ''http://www.google.com'']) \<and>
   0 < Latency (fst (CheckSOCKS5 env_no_forward ''socks5://10.0.0.1:8389'' opts_example)) \<and>
   CheckSOCKS5 env_example ''socks5://10.0.0.1:8389'' opts_example =
     (\<lparr>Address = ''socks5://10.0.0.1:8389'', Protocol = ProtocolSOCKS5, Alive = True,
       Latency = 10000000, Error = []\<rparr>,
      [Dial ''10.0.0.1:8389'',
       Get (SOCKS5Client ''socks5://10.0.0.1:8389'') ''http://www.google.com''])"
proof -
  have p1: "url_Parse ''socks5://1.2.3.4'' = Inr (socks5_url_example ''1.2.3.4'')"
    by code_simp
  have h1: "''1.2.3.4:1080'' =
      (case SplitHostPort (Host (socks5_url_example ''1.2.3.4'')) of
         Inl err \<Rightarrow> Host (socks5_url_example ''1.2.3.4'') @ '':1080''
       | Inr hp \<Rightarrow> Host (socks5_url_example ''1.2.3.4''))"
    by code_simp
  have p2: "url_Parse ''socks5://10.0.0.1:8389'' = Inr (socks5_url_example ''10.0.0.1:8389'')"
    by code_simp
  have h2: "''10.0.0.1:8389'' =
      (case SplitHostPort (Host (socks5_url_example ''10.0.0.1:8389'')) of
         Inl err \<Rightarrow> Host (socks5_url_example ''10.0.0.1:8389'') @ '':1080''
       | Inr hp \<Rightarrow> Host (socks5_url_example ''10.0.0.1:8389''))"
    by code_simp
  have t: "''http://www.google.com'' = defaultTestURL (TestURL opts_example)"
    by (simp add: defaultTestURL_def opts_example_def)
  have f: "proxy_FromURL (socks5_url_example ''10.0.0.1:8389'') = Inr ()"
    by (simp add: proxy_FromURL_def socks5_url_example_def)
  have d1: "dial env_example ''1.2.3.4:1080'' (Timeout opts_example) = Inl ''connection refused''"
    by (simp add: env_example_def)
  have d2: "dial env_no_forward ''10.0.0.1:8389'' (Timeout opts_example) = Inr 1000"
    "dial env_example ''10.0.0.1:8389'' (Timeout opts_example) = Inr 1000"
    by (simp_all add: env_example_def env_no_forward_def)
  have g2: "get env_no_forward (SOCKS5Client ''socks5://10.0.0.1:8389'')
              ''http://www.google.com'' 0 = Inl ''EOF''"
    by (simp add: env_no_forward_def)
  have g3: "get env_example (SOCKS5Client ''socks5://10.0.0.1:8389'')
              ''http://www.google.com'' 0 = Inr 10000000"
    by (simp add: env_example_def)
  have ts: "time_Since 1000 = 1000" "time_Since 10000000 = 10000000"
    by (simp_all add: time_Since_def minDuration_def maxDuration_def)
  from CheckSOCKS5_phases [OF p1 h1 t, of env_example] d1
  have A: "CheckSOCKS5 env_example ''socks5://1.2.3.4'' opts_example =
     (\<lparr>Address = ''socks5://1.2.3.4'', Protocol = ProtocolSOCKS5, Alive = False, Latency = 0,
       Error = ''tcp probe: tcp dial: connection refused''\<rparr>, [Dial ''1.2.3.4:1080''])"
    by simp
  from CheckSOCKS5_phases [OF p2 h2 t, of env_no_forward] d2 f g2
  have B: "CheckSOCKS5 env_no_forward ''socks5://10.0.0.1:8389'' opts_example =
     (\<lparr>Address = ''socks5://10.0.0.1:8389'', Protocol = ProtocolSOCKS5, Alive = False,
       Latency = 1000, Error = ''forward check: EOF''\<rparr>,
      [Dial ''10.0.0.1:8389'',
       Get (SOCKS5Client ''socks5://10.0.0.1:8389'') ''http://www.google.com''])"
    by (simp add: ts)
  from CheckSOCKS5_phases [OF p2 h2 t, of env_example] d2 f g3
  have C: "CheckSOCKS5 env_example ''socks5://10.0.0.1:8389'' opts_example =
     (\<lparr>Address = ''socks5://10.0.0.1:8389'', Protocol = ProtocolSOCKS5, Alive = True,
       Latency = 10000000, Error = []\<rparr>,
      [Dial ''10.0.0.1:8389'',
       Get (SOCKS5Client ''socks5://10.0.0.1:8389'') ''http://www.google.com''])"
    by (simp add: ts)
  from A B C show ?thesis by simp
qed

text \<open>
  C7. Whenever the Shadowsocks URI of an address fails to parse, whatever the cause,
  the prober returns a dead outcome whose message is "parse: " followed by the parse
  error, and makes no network call. In a batch, the outcome at the index of such an
  address is that outcome, and the outcomes at all other indices are the same as in
  any batch that differs only at that index.
\<close>

theorem CheckShadowsocks_parse_failure:
  assumes "ParseShadowsocksURL address = Inl err"
  shows "CheckShadowsocks e address opts =
           (\<lparr>Address = address, Protocol = ProtocolShadowsocks, Alive = False, Latency = 0,
             Error = ''parse: '' @ Error_text (errtext e) err\<rparr>, []) \<and>
         (\<forall>es addresses i schedule s other schedule' s'.
            i < length addresses \<and> addresses ! i = address \<and>
            DetectProtocol address = ProtocolShadowsocks \<and>
            CheckMany es addresses opts schedule = Some s \<and> main_pc s = Returned \<and>
            CheckMany es (addresses[i := other]) opts schedule' = Some s' \<and> main_pc s' = Returned
            \<longrightarrow>
              results s ! i =
                \<lparr>Address = address, Protocol = ProtocolShadowsocks, Alive = False, Latency = 0,
                  Error = ''parse: '' @ Error_text (errtext (es i)) err\<rparr> \<and>
              (\<forall>j<length addresses. j \<noteq> i \<longrightarrow> results s ! j = results s' ! j))"
proof (intro conjI allI impI)
  show one: "CheckShadowsocks e address opts =
           (\<lparr>Address = address, Protocol = ProtocolShadowsocks, Alive = False, Latency = 0,
             Error = ''parse: '' @ Error_text (errtext e) err\<rparr>, [])" for e
    using assms by (simp add: CheckShadowsocks_def Let_def new_Result_def)
  fix es :: "nat \<Rightarrow> env" and addresses i schedule s other schedule' s'
  assume a: "i < length addresses \<and> addresses ! i = address \<and>
            DetectProtocol address = ProtocolShadowsocks \<and>
            CheckMany es addresses opts schedule = Some s \<and> main_pc s = Returned \<and>
            CheckMany es (addresses[i := other]) opts schedule' = Some s' \<and> main_pc s' = Returned"
  have C: "0 < limit 10 (Concurrency opts)" by (simp add: limit_def)
  from a have ex: "CheckMany es addresses opts schedule = Some s" and r: "main_pc s = Returned"
    and ex': "CheckMany es (addresses[i := other]) opts schedule' = Some s'"
    and r': "main_pc s' = Returned"
    by auto
  from CheckMany_results [OF ex r]
  have eq: "results s = map (\<lambda>j. fst (Check (es j) (addresses ! j) opts)) [0..<length addresses]"
    by blast
  from CheckMany_results [OF ex' r']
  have eq': "results s' = map (\<lambda>j. fst (Check (es j) (addresses[i := other] ! j) opts))
                            [0..<length addresses]"
    by simp
  from a have "Check (es i) address opts = CheckShadowsocks (es i) address opts"
    by (simp add: Check_def Let_def ProtocolShadowsocks_def ProtocolHTTP_def ProtocolHTTPS_def
          ProtocolSOCKS5_def)
  with eq a one [of "es i"]
  show "results s ! i =
          \<lparr>Address = address, Protocol = ProtocolShadowsocks, Alive = False, Latency = 0,
            Error = ''parse: '' @ Error_text (errtext (es i)) err\<rparr>"
    by simp
  fix j assume "j < length addresses" "j \<noteq> i"
  with eq eq' show "results s ! j = results s' ! j" by simp
qed


theorem CheckShadowsocks_parse_failure_witness:
  "ParseShadowsocksURL ''ss://notbase64!!!@host:8388''
     = Inl (Wrap ''base64 decode userinfo: '' CorruptInputError) \<and>
   ParseShadowsocksURL ''ss://bm9jb2xvbg@host:8388''
     = Inl (New ''invalid method:password in userinfo'') \<and>
   ParseShadowsocksURL ''ss://YWJj'' = Inl (New ''missing @ in legacy ss URI'') \<and>
   ParseShadowsocksURL ''ss://bTpwQGhvc3Q=''
     = Inl (Wrap ''host:port legacy: '' (AddrError MissingPort)) \<and>
   CheckShadowsocks env_example ''ss://notbase64!!!@host:8388'' opts_example =
     (\<lparr>Address = ''ss://notbase64!!!@host:8388'', Protocol = ProtocolShadowsocks,
       Alive = False, Latency = 0,
       Error = ''parse: base64 decode userinfo: library error''\<rparr>, []) \<and>
   CheckShadowsocks env_example ''ss://bm9jb2xvbg@host:8388'' opts_example =
     (\<lparr>Address = ''ss://bm9jb2xvbg@host:8388'', Protocol = ProtocolShadowsocks,
       Alive = False, Latency = 0,
       Error = ''parse: invalid method:password in userinfo''\<rparr>, []) \<and>
   CheckShadowsocks env_example ''ss://YWJj'' opts_example =
     (\<lparr>Address = ''ss://YWJj'', Protocol = ProtocolShadowsocks, Alive = False, Latency = 0,
       Error = ''parse: missing @ in legacy ss URI''\<rparr>, []) \<and>
   CheckShadowsocks env_example ''ss://bTpwQGhvc3Q='' opts_example =
     (\<lparr>Address = ''ss://bTpwQGhvc3Q='', Protocol = ProtocolShadowsocks, Alive = False,
       Latency = 0, Error = ''parse: host:port legacy: library error''\<rparr>, []) \<and>
   (\<exists>s s'.
      CheckMany (\<lambda>i. env_example) addresses_example opts_example schedule_first_last = Some s \<and>
      CheckMany (\<lambda>i. env_example) (addresses_example[1 := ''socks5://1.2.3.4'']) opts_example
        schedule_last_first = Some s' \<and>
      results s ! 1 =
        \<lparr>Address = ''ss://'', Protocol = ProtocolShadowsocks, Alive = False, Latency = 0,
          Error = ''parse: missing @ in legacy ss URI''\<rparr> \<and>
      results s ! 0 = results s' ! 0)"
proof -
  have p: "ParseShadowsocksURL ''ss://notbase64!!!@host:8388''
             = Inl (Wrap ''base64 decode userinfo: '' CorruptInputError)"
    "ParseShadowsocksURL ''ss://bm9jb2xvbg@host:8388''
             = Inl (New ''invalid method:password in userinfo'')"
    "ParseShadowsocksURL ''ss://YWJj'' = Inl (New ''missing @ in legacy ss URI'')"
    "ParseShadowsocksURL ''ss://bTpwQGhvc3Q=''
             = Inl (Wrap ''host:port legacy: '' (AddrError MissingPort))"
    "ParseShadowsocksURL ''ss://'' = Inl (New ''missing @ in legacy ss URI'')"
    by code_simp+
  have et: "errtext env_example = (\<lambda>err. ''library error'')" by (simp add: env_example_def)
  note T = CheckShadowsocks_parse_failure [where e = env_example and opts = opts_example]
  have A: "CheckShadowsocks env_example ''ss://notbase64!!!@host:8388'' opts_example =
     (\<lparr>Address = ''ss://notbase64!!!@host:8388'', Protocol = ProtocolShadowsocks,
       Alive = False, Latency = 0,
       Error = ''parse: base64 decode userinfo: library error''\<rparr>, [])"
    using T [OF p(1)] by (simp add: et)
  have B: "CheckShadowsocks env_example ''ss://bm9jb2xvbg@host:8388'' opts_example =
     (\<lparr>Address = ''ss://bm9jb2xvbg@host:8388'', Protocol = ProtocolShadowsocks,
       Alive = False, Latency = 0,
       Error = ''parse: invalid method:password in userinfo''\<rparr>, [])"
    using T [OF p(2)] by (simp add: et)
  have C: "CheckShadowsocks env_example ''ss://YWJj'' opts_example =
     (\<lparr>Address = ''ss://YWJj'', Protocol = ProtocolShadowsocks, Alive = False, Latency = 0,
       Error = ''parse: missing @ in legacy ss URI''\<rparr>, [])"
    using T [OF p(3)] by (simp add: et)
  have D: "CheckShadowsocks env_example ''ss://bTpwQGhvc3Q='' opts_example =
     (\<lparr>Address = ''ss://bTpwQGhvc3Q='', Protocol = ProtocolShadowsocks, Alive = False,
       Latency = 0, Error = ''parse: host:port legacy: library error''\<rparr>, [])"
    using T [OF p(4)] by (simp add: et)
  have "case CheckMany (\<lambda>i. env_example) addresses_example opts_example schedule_first_last of
          None \<Rightarrow> False | Some s \<Rightarrow> main_pc s = Returned"
    by code_simp
  then obtain s where
    s: "CheckMany (\<lambda>i. env_example) addresses_example opts_example schedule_first_last = Some s"
    and r: "main_pc s = Returned"
    by (auto split: option.splits)
  have "case CheckMany (\<lambda>i. env_example) (addresses_example[1 := ''socks5://1.2.3.4''])
               opts_example schedule_last_first of
          None \<Rightarrow> False | Some s \<Rightarrow> main_pc s = Returned"
    by code_simp
  then obtain s' where
    s': "CheckMany (\<lambda>i. env_example) (addresses_example[1 := ''socks5://1.2.3.4''])
           opts_example schedule_last_first = Some s'"
    and r': "main_pc s' = Returned"
    by (auto split: option.splits)
  have l: "1 < length addresses_example" "addresses_example ! 1 = ''ss://''"
    "(0::nat) < length addresses_example"
    by (simp_all add: addresses_example_def)
  have dp: "DetectProtocol ''ss://'' = ProtocolShadowsocks" by code_simp
  from T [OF p(5), THEN conjunct2, rule_format,
      of 1 addresses_example "\<lambda>i. env_example" schedule_first_last s
         "''socks5://1.2.3.4''" schedule_last_first s']
    l dp s r s' r'
  have E: "results s ! 1 =
        \<lparr>Address = ''ss://'', Protocol = ProtocolShadowsocks, Alive = False, Latency = 0,
          Error = ''parse: '' @ Error_text (errtext env_example) (New ''missing @ in legacy ss URI'')\<rparr> \<and>
      (\<forall>j<length addresses_example. j \<noteq> 1 \<longrightarrow> results s ! j = results s' ! j)"
    by blast
  with l have F: "results s ! 0 = results s' ! 0" by auto
  from E have G: "results s ! 1 =
        \<lparr>Address = ''ss://'', Protocol = ProtocolShadowsocks, Alive = False, Latency = 0,
          Error = ''parse: missing @ in legacy ss URI''\<rparr>"
    by simp
  from p A B C D s s' F G show ?thesis by blast
qed

lemma float64_error_nonneg:
  "0 \<le> x \<Longrightarrow> \<bar>float64 x - x\<bar> \<le> x / 2 ^ 53"
  using float64_error [of x] by (cases "x = 0") auto

lemma float64_of_int_small:
  "0 \<le> k \<Longrightarrow> k < 2 ^ 53 \<Longrightarrow> float64_of_int k = of_int k"
  using float64_exact [of k 0] by (cases "k = 0") (auto simp: float64_of_int_def)

lemma float64_quarters:
  assumes "0 \<le> j" "j < 2 ^ 53"
  shows "float64 (of_int j / 4) = of_int j / 4"
proof (cases "j = 0")
  case True
  then show ?thesis by simp
next
  case False
  with assms have "0 < j" by simp
  from float64_exact [OF this assms(2), of "- 2"] show ?thesis
    by (simp add: power_int_minus_divide)
qed

lemma abs_diff_scaled: "0 \<le> m \<Longrightarrow> \<bar>a * m - q * m\<bar> = \<bar>a - q\<bar> * (m::rat)"
  by (simp add: left_diff_distrib [symmetric] abs_mult)

text \<open>The float the rank is truncated from is within 1/100 of the exact value.\<close>

lemma rank_value_close:
  assumes P: "0 \<le> P" "P \<le> 100" and n: "0 < n" "n \<le> 2 ^ 40"
  shows "\<bar>fadd (fmul (fdiv (float64_of_int P) 100) (float64_of_int (int n - 1))) (1 / 2)
          - ((of_int P :: rat) / 100 * (of_nat n - 1) + 1 / 2)\<bar> < 1 / 100"
proof -
  let ?q = "(of_int P :: rat) / 100"
  let ?m = "(of_nat n :: rat) - 1"
  let ?a = "float64 ?q"
  let ?b = "float64 (?a * ?m)"
  let ?s = "float64 (?b + 1 / 2)"
  from P have Pk: "float64_of_int P = of_int P" by (intro float64_of_int_small) auto
  from n have "int n - 1 < 2 ^ 53" by simp
  with n have mk: "float64_of_int (int n - 1) = ?m"
    using float64_of_int_small [of "int n - 1"] by simp
  have val: "fadd (fmul (fdiv (float64_of_int P) 100) (float64_of_int (int n - 1))) (1 / 2) = ?s"
    by (simp add: fadd_def fmul_def fdiv_def Pk mk)
  from P have q0: "0 \<le> ?q" and q1: "?q \<le> 1" by auto
  from n have m0: "0 \<le> ?m" by simp
  have "(of_nat n :: rat) \<le> of_nat (2 ^ 40)" using n by (simp only: of_nat_le_iff)
  then have m1: "?m \<le> 2 ^ 40" by simp
  have a0: "0 \<le> ?a" using q0 by (rule float64_nonneg)
  have "?a \<le> float64 1" using q0 q1 by (rule float64_mono)
  then have a1: "?a \<le> 1" by simp
  have ea: "\<bar>?a - ?q\<bar> \<le> ?q / 2 ^ 53" using q0 by (rule float64_error_nonneg)
  have am0: "0 \<le> ?a * ?m" using a0 m0 by simp
  have am1: "?a * ?m \<le> 2 ^ 40" using mult_mono [OF a1 m1] a0 m0 by simp
  have eb: "\<bar>?b - ?a * ?m\<bar> \<le> ?a * ?m / 2 ^ 53" using am0 by (rule float64_error_nonneg)
  have b0: "0 \<le> ?b" using am0 by (rule float64_nonneg)
  have b1: "?b \<le> 2 ^ 40" using am0 am1 by (rule float64_le_pow2)
  have es: "\<bar>?s - (?b + 1 / 2)\<bar> \<le> (?b + 1 / 2) / 2 ^ 53"
    using b0 by (intro float64_error_nonneg) simp
  have "\<bar>?a * ?m - ?q * ?m\<bar> = \<bar>?a - ?q\<bar> * ?m"
    using m0 by (rule abs_diff_scaled)
  also have "\<dots> \<le> ?q / 2 ^ 53 * ?m" using ea m0 by (rule mult_right_mono)
  also have "\<dots> \<le> 1 / 2 ^ 53 * 2 ^ 40"
    using q0 q1 m0 m1 by (intro mult_mono divide_right_mono) auto
  finally have d1: "\<bar>?a * ?m - ?q * ?m\<bar> \<le> 2 ^ 40 / 2 ^ 53" by simp
  have "?a * ?m / 2 ^ 53 \<le> 2 ^ 40 / 2 ^ 53"
    using am1 by (rule divide_right_mono) simp
  with eb have d2: "\<bar>?b - ?a * ?m\<bar> \<le> 2 ^ 40 / 2 ^ 53" by (rule order_trans)
  have "(?b + 1 / 2) / 2 ^ 53 \<le> (2 ^ 40 + 1 / 2) / 2 ^ 53"
    using b1 by (intro divide_right_mono) auto
  with es have d3: "\<bar>?s - (?b + 1 / 2)\<bar> \<le> (2 ^ 40 + 1 / 2) / 2 ^ 53" by simp
  have "\<bar>?s - (?q * ?m + 1 / 2)\<bar>
        \<le> \<bar>?s - (?b + 1 / 2)\<bar> + \<bar>?b - ?a * ?m\<bar> + \<bar>?a * ?m - ?q * ?m\<bar>"
    by linarith
  also have "\<dots> \<le> (2 ^ 40 + 1 / 2) / 2 ^ 53 + 2 ^ 40 / 2 ^ 53 + 2 ^ 40 / 2 ^ 53"
    using d1 d2 d3 by linarith
  also have "\<dots> < 1 / 100" by simp
  finally show ?thesis unfolding val .
qed


lemma round_half_up_rank_div:
  "0 < n \<Longrightarrow> round_half_up_rank n P = (P * (int n - 1) + 50) div 100"
proof -
  assume n: "0 < n"
  have "(of_int P :: rat) / 100 * (of_nat n - 1) + 1 / 2
          = of_int (P * (int n - 1) + 50) / of_int 100"
    using n by (simp add: field_simps)
  then show ?thesis
    unfolding round_half_up_rank_def by (simp only: floor_divide_of_int_eq)
qed

lemma exact_rank_split:
  assumes n: "0 < n"
  shows "(of_int P :: rat) / 100 * (of_nat n - 1) + 1 / 2
           = of_int (round_half_up_rank n P) + of_int ((P * (int n - 1) + 50) mod 100) / 100"
proof -
  let ?k = "P * (int n - 1) + 50"
  have "(of_int ?k :: rat) = of_int (100 * (?k div 100) + ?k mod 100)"
    by (rule arg_cong [where f = of_int]) simp
  also have "\<dots> = 100 * of_int (?k div 100) + of_int (?k mod 100)"
    by (simp only: of_int_add of_int_mult of_int_numeral)
  finally have e: "(of_int ?k :: rat) / 100 = of_int (?k div 100) + of_int (?k mod 100) / 100"
    by (simp add: add_divide_distrib)
  have "(of_int P :: rat) / 100 * (of_nat n - 1) + 1 / 2 = of_int ?k / 100"
    using n by (simp add: field_simps)
  with e show ?thesis by (simp only: round_half_up_rank_div [OF n])
qed

lemma tie_residue:
  assumes "(x + 50) mod 100 = (0::int)"
  shows "x mod 100 = 50"
proof -
  from assms have "100 dvd x + 50" by (simp add: mod_eq_0_iff_dvd)
  then obtain k where "x + 50 = 100 * k" by (auto simp: dvd_def)
  then have "x = 50 + 100 * (k - 1)" by simp
  then have "x mod 100 = (50 + 100 * (k - 1)) mod 100" by (simp only:)
  also have "\<dots> = 50" by (simp only: mod_mult_self2) simp
  finally show ?thesis .
qed

lemma rank_near:
  assumes P: "0 \<le> P" "P \<le> 100" and n: "0 < n" "n \<le> 2 ^ 40"
  shows "rank n P = round_half_up_rank n P \<or> rank n P = round_half_up_rank n P - 1"
    and "P * (int n - 1) mod 100 \<noteq> 50 \<Longrightarrow> rank n P = round_half_up_rank n P"
proof -
  let ?s = "fadd (fmul (fdiv (float64_of_int P) 100) (float64_of_int (int n - 1))) (1 / 2)"
  let ?r = "round_half_up_rank n P"
  let ?d = "(P * (int n - 1) + 50) mod 100"
  have "(2::nat) ^ 40 \<le> 2 ^ 45" by simp
  with n(2) have n45: "n \<le> 2 ^ 45" by (rule order_trans)
  have fl: "rank n P = \<lfloor>?s\<rfloor>" by (rule rank_floor [OF P n(1) n45])
  have d: "0 \<le> ?d" "?d \<le> 99" by simp_all
  then have dr: "(0::rat) \<le> of_int ?d / 100" "(of_int ?d :: rat) / 100 \<le> 99 / 100"
    by simp_all
  from rank_value_close [OF P n] exact_rank_split [OF n(1), of P]
  have close: "\<bar>?s - (of_int ?r + of_int ?d / 100)\<bar> < 1 / 100" by simp
  have c1: "(of_int (?r - 1) :: rat) = of_int ?r - 1" "(of_int (?r + 1) :: rat) = of_int ?r + 1"
    by simp_all
  from close dr have "of_int (?r - 1) \<le> ?s" "?s < of_int (?r + 1)"
    unfolding c1 by linarith+
  then have "?r - 1 \<le> \<lfloor>?s\<rfloor>" "\<lfloor>?s\<rfloor> < ?r + 1"
    by (simp_all only: le_floor_iff floor_less_iff)
  then show "rank n P = ?r \<or> rank n P = ?r - 1" unfolding fl by linarith
  assume nt: "P * (int n - 1) mod 100 \<noteq> 50"
  have "?d \<noteq> 0"
  proof
    assume "?d = 0"
    then have "P * (int n - 1) mod 100 = 50" by (rule tie_residue)
    with nt show False ..
  qed
  with d have "1 \<le> ?d" by simp
  then have "(of_int 1 :: rat) \<le> of_int ?d" by (simp only: of_int_le_iff)
  then have "(1::rat) / 100 \<le> of_int ?d / 100" by simp
  with close dr have "of_int ?r \<le> ?s" "?s < of_int ?r + 1" by linarith+
  then have "\<lfloor>?s\<rfloor> = ?r" by (simp add: floor_unique)
  then show "rank n P = ?r" unfolding fl .
qed

lemma rank_exact_quarters:
  assumes P: "0 \<le> P" "P \<le> 100" "25 dvd P" and n: "0 < n" "n \<le> 2 ^ 40"
  shows "rank n P = round_half_up_rank n P"
proof -
  from P(3) obtain k where k: "P = 25 * k" by (auto simp: dvd_def)
  with P have k4: "0 \<le> k" "k \<le> 4" by auto
  let ?m = "int n - 1"
  from n have m: "0 \<le> ?m" "?m \<le> 1099511627776" by auto
  have "(2::nat) ^ 40 \<le> 2 ^ 45" by simp
  with n(2) have n45: "n \<le> 2 ^ 45" by (rule order_trans)
  from P have Pk: "float64_of_int P = of_int P" by (intro float64_of_int_small) auto
  from m have mk: "float64_of_int ?m = of_int ?m" by (intro float64_of_int_small) auto
  have q: "(of_int P :: rat) / 100 = of_int k / 4" by (simp add: k)
  have a: "fdiv (float64_of_int P) 100 = of_int k / 4"
    unfolding fdiv_def Pk q using k4 by (intro float64_quarters) auto
  from k4 m have "k * ?m \<le> 4 * ?m" by (intro mult_right_mono) auto
  moreover from m have "4 * ?m \<le> 4398046511104" by simp
  ultimately have km2: "k * ?m \<le> 4398046511104" by (rule order_trans)
  from k4 m have km1: "0 \<le> k * ?m" by simp
  note km = km1 km2
  have "float64 (of_int (k * ?m) / 4) = of_int (k * ?m) / 4"
    using km by (intro float64_quarters) auto
  then have b: "fmul (fdiv (float64_of_int P) 100) (float64_of_int ?m) = of_int (k * ?m) / 4"
    unfolding fmul_def a mk by simp
  have "float64 (of_int (k * ?m + 2) / 4) = of_int (k * ?m + 2) / 4"
    using km by (intro float64_quarters) auto
  then have "fadd (of_int (k * ?m) / 4) (1 / 2) = of_int (k * ?m) / 4 + 1 / 2"
    unfolding fadd_def by (simp add: add_divide_distrib)
  then have s: "fadd (fmul (fdiv (float64_of_int P) 100) (float64_of_int ?m)) (1 / 2)
                  = (of_int P :: rat) / 100 * (of_nat n - 1) + 1 / 2"
    unfolding b using n by (simp add: q)
  show ?thesis
    unfolding rank_floor [OF P(1,2) n(1) n45] s round_half_up_rank_def ..
qed

lemma round_half_up_rank_range:
  assumes P: "0 \<le> P" "P \<le> 100" and n: "0 < n"
  shows "0 \<le> round_half_up_rank n P \<and> round_half_up_rank n P \<le> int n - 1"
proof -
  let ?m = "int n - 1"
  from n have m: "0 \<le> ?m" by simp
  with P have "0 \<le> P * ?m" by simp
  then have lo: "0 \<le> (P * ?m + 50) div 100" by simp
  from P m have "P * ?m \<le> 100 * ?m" by (intro mult_right_mono) auto
  then have "P * ?m + 50 \<le> 100 * ?m + 50" by simp
  then have "(P * ?m + 50) div 100 \<le> (100 * ?m + 50) div 100" by (rule zdiv_mono1) simp
  also have "\<dots> = ?m" by simp
  finally show ?thesis using lo by (simp add: round_half_up_rank_div [OF n])
qed


text \<open>
  C4, as stated, fails: for the ascending list of the 26 latencies 0, 1, ..., 25 and
  P = 58, round-half-up of 0.58 * 25 = 14.5 is rank 15, but the float64 product is
  14.499999999999998 and \<open>percentile\<close> returns the element at rank 14.
\<close>

theorem percentile_float_rounding_counterexample:
  "sorted latencies_26 \<and> length latencies_26 = 26 \<and>
   round_half_up_rank (length latencies_26) 58 = 15 \<and>
   latencies_26 ! nat (round_half_up_rank (length latencies_26) 58) = 15 \<and>
   percentile latencies_26 58 = Inr 14"
  by code_simp

text \<open>
  C4 amended. For every non-empty list of at most \<open>2^40\<close> latencies and every
  percentile P in [0, 100], \<open>percentile\<close> returns the element at rank
  round-half-up(P/100 * (count - 1)), which never needs clamping, whenever
  P/100 * (count - 1) is not exactly halfway between two integers or P is a multiple of
  25 (so that P/100 is a binary fraction); in the remaining cases float64 rounding can
  make it the element one rank below. For the list 10, 20, ..., 100:
  percentile(50) = 60, percentile(95) = 100 and percentile(0) = 10.
\<close>

theorem percentile_round_half_up:
  assumes "xs \<noteq> []" and "length xs \<le> 2 ^ 40" and "0 \<le> P" and "P \<le> 100"
  shows "(P * (int (length xs) - 1) mod 100 \<noteq> 50 \<or> 25 dvd P \<longrightarrow>
            percentile xs P = Inr (xs ! nat (round_half_up_rank (length xs) P))) \<and>
         (percentile xs P = Inr (xs ! nat (round_half_up_rank (length xs) P)) \<or>
          percentile xs P = Inr (xs ! nat (round_half_up_rank (length xs) P - 1))) \<and>
         0 \<le> round_half_up_rank (length xs) P \<and>
         round_half_up_rank (length xs) P \<le> int (length xs) - 1 \<and>
         percentile latencies_example 50 = Inr 60 \<and>
         percentile latencies_example 95 = Inr 100 \<and>
         percentile latencies_example 0 = Inr 10"
proof -
  let ?n = "length xs"
  let ?r = "round_half_up_rank ?n P"
  from assms(1) have n: "0 < ?n" by simp
  have "(2::nat) ^ 40 \<le> 2 ^ 45" by simp
  with assms(2) have n45: "?n \<le> 2 ^ 45" by (rule order_trans)
  note idx = percentile_index [OF assms(3,4) assms(1) n45]
  from round_half_up_rank_range [OF assms(3,4) n]
  have rr: "0 \<le> ?r" "?r \<le> int ?n - 1" by auto
  note near = rank_near [OF assms(3,4) n assms(2)]
  have eq: "percentile xs P = Inr (xs ! nat ?r)" if "rank ?n P = ?r"
    unfolding idx that using rr by (simp add: min_def)
  have eq': "percentile xs P = Inr (xs ! nat (?r - 1))" if "rank ?n P = ?r - 1"
    unfolding idx that using rr by (simp add: min_def)
  have A: "P * (int ?n - 1) mod 100 \<noteq> 50 \<or> 25 dvd P \<longrightarrow>
            percentile xs P = Inr (xs ! nat ?r)"
    using near(2) rank_exact_quarters [OF assms(3,4) _ n assms(2)] eq by blast
  have B: "percentile xs P = Inr (xs ! nat ?r) \<or> percentile xs P = Inr (xs ! nat (?r - 1))"
    using near(1) eq eq' by blast
  have C: "percentile latencies_example 50 = Inr 60"
    "percentile latencies_example 95 = Inr 100"
    "percentile latencies_example 0 = Inr 10"
    by code_simp+
  from A B rr C show ?thesis by blast
qed

theorem percentile_round_half_up_witness:
  "latencies_example \<noteq> [] \<and> length latencies_example \<le> 2 ^ 40 \<and>
   95 * (int (length latencies_example) - 1) mod 100 \<noteq> 50 \<and>
   round_half_up_rank (length latencies_example) 95 = 9 \<and>
   percentile latencies_example 95 = Inr (latencies_example ! 9) \<and>
   latencies_example ! 9 = 100 \<and>
   (25::int) dvd 50 \<and>
   round_half_up_rank (length latencies_example) 50 = 5 \<and>
   percentile latencies_example 50 = Inr (latencies_example ! 5) \<and>
   latencies_example ! 5 = 60 \<and>
   (percentile latencies_26 58 = Inr (latencies_26 ! nat (round_half_up_rank (length latencies_26) 58)) \<or>
    percentile latencies_26 58 = Inr (latencies_26 ! nat (round_half_up_rank (length latencies_26) 58 - 1)))"
proof -
  have h: "latencies_example \<noteq> []" "length latencies_example \<le> 2 ^ 40"
    "latencies_26 \<noteq> []" "length latencies_26 \<le> 2 ^ 40"
    by (simp_all add: latencies_example_def latencies_26_def)
  have nt: "95 * (int (length latencies_example) - 1) mod 100 \<noteq> 50"
    by (simp add: latencies_example_def)
  have r: "round_half_up_rank (length latencies_example) 95 = 9"
    "round_half_up_rank (length latencies_example) 50 = 5"
    by code_simp+
  have v: "latencies_example ! 9 = 100" "latencies_example ! 5 = 60"
    by (simp_all add: latencies_example_def)
  have d: "(25::int) dvd 50" by simp
  from percentile_round_half_up [OF h(1,2), of 95] nt r
  have A: "percentile latencies_example 95 = Inr (latencies_example ! 9)" by simp
  from percentile_round_half_up [OF h(1,2), of 50] d r
  have B: "percentile latencies_example 50 = Inr (latencies_example ! 5)" by simp
  from percentile_round_half_up [OF h(3,4), of 58]
  have C: "percentile latencies_26 58 = Inr (latencies_26 ! nat (round_half_up_rank (length latencies_26) 58)) \<or>
    percentile latencies_26 58 = Inr (latencies_26 ! nat (round_half_up_rank (length latencies_26) 58 - 1))"
    by simp
  from h nt r v d A B C show ?thesis by blast
qed

end
